theory Spec2Isabelle
  imports Complex_Main "HOL-Library.Multiset" "HOL-Library.Product_Lexorder"
begin

section \<open>float64 numbers\<close>

text \<open>
  The module \<^verbatim>\<open>ASAPy/CovManipulation.py\<close> works on NumPy arrays and scalars of dtype
  float64. A float64 value is a finite real number, an infinity or NaN; the two zeros are one
  value here (the only operation that tells them apart, a division by zero, has a divisor that
  is the result of a square root in every division of the module, which is never the negative
  zero).
\<close>

datatype f64 = Fin real | PInf | NInf | NaN

text \<open>
  Every arithmetic operation computes the exact result and rounds it. The rounding is a
  parameter of the embedding, so that the same definitions can be read in float64 arithmetic
  (\<open>round64\<close>) and in exact arithmetic (\<open>exact\<close>, no rounding at all).

  \<open>round64\<close> is the rounding of IEEE 754 binary64, to the nearest representable number with
  ties to the even significand: a number in the binade \<open>[2\<^sup>e, 2\<^sup>e\<^sup>+\<^sup>1)\<close> is rounded to a multiple of
  \<open>2\<^sup>e\<^sup>-\<^sup>5\<^sup>2\<close>, the exponent is at least \<open>-1022\<close> (below, the numbers are subnormal, multiples of
  \<open>2\<^sup>-\<^sup>1\<^sup>0\<^sup>7\<^sup>4\<close>), and a result of magnitude \<open>2\<^sup>1\<^sup>0\<^sup>2\<^sup>4\<close> or more is an infinity.
\<close>

type_synonym rounding = "real \<Rightarrow> f64"

definition rne :: "real \<Rightarrow> int" where
  "rne x =
     (let f = \<lfloor>x\<rfloor>; d = x - of_int f
      in if d < 1 / 2 then f else if 1 / 2 < d then f + 1 else if even f then f else f + 1)"

definition ulp64 :: "real \<Rightarrow> real" where
  "ulp64 x = 2 powr (of_int (max \<lfloor>log 2 \<bar>x\<bar>\<rfloor> (- 1022)) - 52)"

definition round64 :: rounding where
  "round64 x =
     (if x = 0 then Fin 0
      else let y = of_int (rne (x / ulp64 x)) * ulp64 x
           in if 2 ^ 1024 \<le> \<bar>y\<bar> then (if 0 < x then PInf else NInf) else Fin y)"


text \<open>
  What the theorems ask of a rounding: a number it returns is returned unchanged when rounded
  again, and 0, 1 and 2 are numbers of the format. Both \<open>round64\<close> and \<open>exact\<close> are such.
\<close>

definition rounding_ok :: "rounding \<Rightarrow> bool" where
  "rounding_ok rnd \<longleftrightarrow>
     (\<forall>x y. rnd x = Fin y \<longrightarrow> rnd y = Fin y) \<and> rnd 0 = Fin 0 \<and> rnd 1 = Fin 1 \<and> rnd 2 = Fin 2"

text \<open>The values of an array are numbers of the format.\<close>

fun is_float :: "rounding \<Rightarrow> f64 \<Rightarrow> bool" where
  "is_float rnd (Fin x) = (rnd x = Fin x)"
| "is_float rnd v = True"

fun is_finite :: "f64 \<Rightarrow> bool" where
  "is_finite (Fin x) = True"
| "is_finite v = False"

fun the_real :: "f64 \<Rightarrow> real" where
  "the_real (Fin x) = x"
| "the_real v = 0"

text \<open>The operations of IEEE 754 on these values.\<close>

fun fneg :: "f64 \<Rightarrow> f64" where
  "fneg (Fin x) = Fin (- x)"
| "fneg PInf = NInf"
| "fneg NInf = PInf"
| "fneg NaN = NaN"

fun fabs :: "f64 \<Rightarrow> f64" where
  "fabs (Fin x) = Fin \<bar>x\<bar>"
| "fabs PInf = PInf"
| "fabs NInf = PInf"
| "fabs NaN = NaN"

fun fadd :: "rounding \<Rightarrow> f64 \<Rightarrow> f64 \<Rightarrow> f64" where
  "fadd rnd (Fin x) (Fin y) = rnd (x + y)"
| "fadd rnd NaN v = NaN"
| "fadd rnd v NaN = NaN"
| "fadd rnd PInf NInf = NaN"
| "fadd rnd NInf PInf = NaN"
| "fadd rnd PInf v = PInf"
| "fadd rnd v PInf = PInf"
| "fadd rnd NInf v = NInf"
| "fadd rnd v NInf = NInf"

definition fsub :: "rounding \<Rightarrow> f64 \<Rightarrow> f64 \<Rightarrow> f64" where
  "fsub rnd a b = fadd rnd a (fneg b)"

text \<open>The sign of a product or quotient with an infinity.\<close>

definition signed_inf :: "bool \<Rightarrow> f64" where
  "signed_inf positive = (if positive then PInf else NInf)"

fun fmul :: "rounding \<Rightarrow> f64 \<Rightarrow> f64 \<Rightarrow> f64" where
  "fmul rnd (Fin x) (Fin y) = rnd (x * y)"
| "fmul rnd NaN v = NaN"
| "fmul rnd v NaN = NaN"
| "fmul rnd (Fin x) PInf = (if x = 0 then NaN else signed_inf (0 < x))"
| "fmul rnd (Fin x) NInf = (if x = 0 then NaN else signed_inf (x < 0))"
| "fmul rnd PInf (Fin y) = (if y = 0 then NaN else signed_inf (0 < y))"
| "fmul rnd NInf (Fin y) = (if y = 0 then NaN else signed_inf (y < 0))"
| "fmul rnd PInf PInf = PInf"
| "fmul rnd PInf NInf = NInf"
| "fmul rnd NInf PInf = NInf"
| "fmul rnd NInf NInf = PInf"

text \<open>
  A division by zero does not raise on NumPy scalars: it gives an infinity, or NaN for
  \<open>0 / 0\<close>, and a warning.
\<close>

fun fdiv :: "rounding \<Rightarrow> f64 \<Rightarrow> f64 \<Rightarrow> f64" where
  "fdiv rnd (Fin x) (Fin y) =
     (if y = 0 then (if x = 0 then NaN else signed_inf (0 < x)) else rnd (x / y))"
| "fdiv rnd NaN v = NaN"
| "fdiv rnd v NaN = NaN"
| "fdiv rnd (Fin x) PInf = Fin 0"
| "fdiv rnd (Fin x) NInf = Fin 0"
| "fdiv rnd PInf (Fin y) = signed_inf (0 \<le> y)"
| "fdiv rnd NInf (Fin y) = signed_inf (y < 0)"
| "fdiv rnd PInf PInf = NaN"
| "fdiv rnd PInf NInf = NaN"
| "fdiv rnd NInf PInf = NaN"
| "fdiv rnd NInf NInf = NaN"

text \<open>\<^verbatim>\<open>np.sqrt(x)\<close>.\<close>

fun fsqrt :: "rounding \<Rightarrow> f64 \<Rightarrow> f64" where
  "fsqrt rnd (Fin x) = (if x < 0 then NaN else rnd (sqrt x))"
| "fsqrt rnd PInf = PInf"
| "fsqrt rnd NInf = NaN"
| "fsqrt rnd NaN = NaN"

text \<open>
  \<^verbatim>\<open>x ** 0.5\<close> (the \<^verbatim>\<open>pow\<close> of the C library, taken as rounding the exact root) and
  \<^verbatim>\<open>x ** 2\<close>.
\<close>

fun fpow_half :: "rounding \<Rightarrow> f64 \<Rightarrow> f64" where
  "fpow_half rnd (Fin x) = (if x < 0 then NaN else rnd (sqrt x))"
| "fpow_half rnd PInf = PInf"
| "fpow_half rnd NInf = PInf"
| "fpow_half rnd NaN = NaN"

fun fsquare :: "rounding \<Rightarrow> f64 \<Rightarrow> f64" where
  "fsquare rnd (Fin x) = rnd (x * x)"
| "fsquare rnd PInf = PInf"
| "fsquare rnd NInf = PInf"
| "fsquare rnd NaN = NaN"

text \<open>\<^verbatim>\<open>a < b\<close> and \<^verbatim>\<open>a >= b\<close>: false when an operand is NaN.\<close>

fun flt :: "f64 \<Rightarrow> f64 \<Rightarrow> bool" where
  "flt (Fin x) (Fin y) = (x < y)"
| "flt NaN v = False"
| "flt v NaN = False"
| "flt v NInf = False"
| "flt PInf v = False"
| "flt NInf v = True"
| "flt v PInf = True"

fun fge :: "f64 \<Rightarrow> f64 \<Rightarrow> bool" where
  "fge (Fin x) (Fin y) = (y \<le> x)"
| "fge NaN v = False"
| "fge v NaN = False"
| "fge v NInf = True"
| "fge PInf v = True"
| "fge NInf v = False"
| "fge v PInf = False"

text \<open>
  Python's builtin \<^verbatim>\<open>max(a, b)\<close> and \<^verbatim>\<open>max(a, b, c)\<close>: the first argument is kept unless a
  later one compares greater, so a NaN in the first place is kept and a NaN in a later place
  is skipped.
\<close>

definition py_max :: "f64 \<Rightarrow> f64 \<Rightarrow> f64" where
  "py_max a b = (if flt a b then b else a)"

definition py_max3 :: "f64 \<Rightarrow> f64 \<Rightarrow> f64 \<Rightarrow> f64" where
  "py_max3 a b c = py_max (py_max a b) c"

text \<open>The conversion of a Python integer to float64.\<close>

definition float_of_nat :: "rounding \<Rightarrow> nat \<Rightarrow> f64" where
  "float_of_nat rnd k = rnd (real k)"

section \<open>NumPy arrays\<close>

text \<open>
  A vector is the list of its entries, a two-dimensional array the list of its rows. An index
  outside an array raises \<^verbatim>\<open>IndexError\<close> in NumPy; reads of caller-supplied arrays are
  therefore checked.
\<close>

type_synonym vec = "f64 list"
type_synonym matrix = "f64 list list"

datatype py_error = IndexError | ValueError | UnboundLocalError | CouldNotOrderSamples

text \<open>\<^verbatim>\<open>for i in range(...)\<close> with a body that may raise: the first error ends the loop.\<close>

fun for_loop :: "nat list \<Rightarrow> (nat \<Rightarrow> 's \<Rightarrow> py_error + 's) \<Rightarrow> 's \<Rightarrow> py_error + 's" where
  "for_loop [] body s = Inr s"
| "for_loop (i # is) body s =
     (case body i s of Inl e \<Rightarrow> Inl e | Inr s' \<Rightarrow> for_loop is body s')"

text \<open>\<^verbatim>\<open>m[i, j]\<close> on a caller-supplied two-dimensional array.\<close>

definition mat_get :: "'a list list \<Rightarrow> nat \<Rightarrow> nat \<Rightarrow> py_error + 'a" where
  "mat_get m i j =
     (if i < length m \<and> j < length (m ! i) then Inr (m ! i ! j) else Inl IndexError)"

text \<open>\<^verbatim>\<open>m[i, j] = v\<close> on an array the function allocated itself (always in range there).\<close>

definition mat_set :: "'a list list \<Rightarrow> nat \<Rightarrow> nat \<Rightarrow> 'a \<Rightarrow> 'a list list" where
  "mat_set m i j v = m[i := (m ! i)[j := v]]"

text \<open>\<^verbatim>\<open>np.diag(v)\<close> of a vector: the square matrix with \<open>v\<close> on the diagonal.\<close>

definition np_diag :: "vec \<Rightarrow> matrix" where
  "np_diag v = map (\<lambda>i. map (\<lambda>j. if i = j then v ! i else Fin 0) [0..<length v]) [0..<length v]"

text \<open>\<^verbatim>\<open>np.diag(m)\<close> of a square matrix: its diagonal.\<close>

definition diag_of :: "'a list list \<Rightarrow> 'a list" where
  "diag_of m = map (\<lambda>i. m ! i ! i) [0..<length m]"

text \<open>The number of columns of a (rectangular) array with at least one row.\<close>

definition cols :: "'a list list \<Rightarrow> nat" where
  "cols m = (case m of [] \<Rightarrow> 0 | row # _ \<Rightarrow> length row)"

text \<open>\<^verbatim>\<open>m.T\<close>.\<close>

definition mat_T :: "'a list list \<Rightarrow> 'a list list" where
  "mat_T m = map (\<lambda>j. map (\<lambda>row. row ! j) m) [0..<cols m]"

text \<open>Elementwise \<^verbatim>\<open>a + b\<close> and \<^verbatim>\<open>a - b\<close> of arrays of one shape.\<close>

definition mat_add :: "rounding \<Rightarrow> matrix \<Rightarrow> matrix \<Rightarrow> matrix" where
  "mat_add rnd a b = map2 (map2 (fadd rnd)) a b"

definition mat_sub :: "rounding \<Rightarrow> matrix \<Rightarrow> matrix \<Rightarrow> matrix" where
  "mat_sub rnd a b = map2 (map2 (fsub rnd)) a b"

text \<open>The closing line of both converters: \<^verbatim>\<open>c + c.T - np.diag(np.diag(c))\<close>.\<close>

definition mirror_upper :: "rounding \<Rightarrow> matrix \<Rightarrow> matrix" where
  "mirror_upper rnd c = mat_sub rnd (mat_add rnd c (mat_T c)) (np_diag (diag_of c))"

section \<open>Correlation and covariance\<close>

text \<open>
  \<^verbatim>\<open>
  def correlation_to_cov(std, corr):
      cov = np.diag(std**2)
      shape = len(std)
      for i in range(shape):
          for j in range(i+1, shape):
              cov[i, j] = corr[i, j] * std[i] * std[j]
      cov = cov + cov.T - np.diag(np.diag(cov))
      return cov
  \<close>
  with \<^verbatim>\<open>std\<close> and \<^verbatim>\<open>corr\<close> arrays of dtype float64. The product is evaluated from the left,
  each multiplication rounding.
\<close>

definition correlation_to_cov :: "rounding \<Rightarrow> vec \<Rightarrow> matrix \<Rightarrow> py_error + matrix" where
  "correlation_to_cov rnd std corr =
     (let cov = np_diag (map (fsquare rnd) std);
          shape = length std
      in case for_loop [0..<shape] (\<lambda>i cov.
                for_loop [i + 1..<shape] (\<lambda>j cov.
                  case mat_get corr i j of
                    Inl e \<Rightarrow> Inl e
                  | Inr c \<Rightarrow> Inr (mat_set cov i j (fmul rnd (fmul rnd c (std ! i)) (std ! j)))) cov) cov of
           Inl e \<Rightarrow> Inl e
         | Inr cov \<Rightarrow> Inr (mirror_upper rnd cov))"




text \<open>
  \<^verbatim>\<open>
  def cov_to_correlation(cov):
      shape = len(cov)
      corr = np.diag(np.ones(shape))
      for i in range(shape):
          for j in range(i+1, shape):
              corr[i, j] = cov[i, j] / np.abs(cov[i, i] * cov[j, j]) ** 0.5
      corr = corr + corr.T - np.diag(np.diag(corr))
      return corr
  \<close>
  The three reads happen in the order of the expression.
\<close>

definition cov_to_correlation :: "rounding \<Rightarrow> matrix \<Rightarrow> py_error + matrix" where
  "cov_to_correlation rnd cov =
     (let shape = length cov;
          corr = np_diag (replicate shape (Fin 1))
      in case for_loop [0..<shape] (\<lambda>i corr.
                for_loop [i + 1..<shape] (\<lambda>j corr.
                  case mat_get cov i j of
                    Inl e \<Rightarrow> Inl e
                  | Inr cij \<Rightarrow>
                     (case mat_get cov i i of
                        Inl e \<Rightarrow> Inl e
                      | Inr cii \<Rightarrow>
                         (case mat_get cov j j of
                            Inl e \<Rightarrow> Inl e
                          | Inr cjj \<Rightarrow>
                              Inr (mat_set corr i j
                                (fdiv rnd cij (fpow_half rnd (fabs (fmul rnd cii cjj)))))))) corr) corr of
           Inl e \<Rightarrow> Inl e
         | Inr corr \<Rightarrow> Inr (mirror_upper rnd corr))"

text \<open>Shapes and symmetry, as lists have them.\<close>

definition is_square :: "nat \<Rightarrow> 'a list list \<Rightarrow> bool" where
  "is_square n m \<longleftrightarrow> length m = n \<and> list_all (\<lambda>row. length row = n) m"

definition symmetric :: "'a list list \<Rightarrow> bool" where
  "symmetric m \<longleftrightarrow>
     list_all (\<lambda>i. list_all (\<lambda>j. m ! i ! j = m ! j ! i) [0..<length m]) [0..<length m]"


text \<open>
  The entries \<^verbatim>\<open>cov[i, j]\<close>, \<^verbatim>\<open>cov[i, i]\<close> and \<^verbatim>\<open>cov[j, j]\<close>, \<open>i < j < len(cov)\<close>, that
  \<^verbatim>\<open>cov_to_correlation\<close> reads all exist.
\<close>

definition cov_reads_ok :: "'a list list \<Rightarrow> bool" where
  "cov_reads_ok m \<longleftrightarrow>
     list_all (\<lambda>j. list_all (\<lambda>i. j < length (m ! i) \<and> i < length (m ! i) \<and> j < length (m ! j))
       [0..<j]) [0..<length m]"


text \<open>Arrays of float64: every entry is a number of the format.\<close>

definition float_vec :: "rounding \<Rightarrow> vec \<Rightarrow> bool" where
  "float_vec rnd v \<longleftrightarrow> list_all (is_float rnd) v"

definition float_mat :: "rounding \<Rightarrow> matrix \<Rightarrow> bool" where
  "float_mat rnd m \<longleftrightarrow> list_all (list_all (is_float rnd)) m"

section \<open>Stratified samples with a target correlation\<close>

text \<open>
  \<^verbatim>\<open>lhs_normal_sample_corr\<close> first draws \<^verbatim>\<open>samples\<close> (line 229: a Latin hypercube by SALib, mapped
  through SciPy's normal quantile function) and computes \<^verbatim>\<open>dependent_samples\<close> from them
  (lines 232 to 238: \<^verbatim>\<open>np.corrcoef\<close>, \<^verbatim>\<open>gmw_cholesky\<close>, \<^verbatim>\<open>np.linalg.cholesky\<close>,
  \<^verbatim>\<open>np.linalg.inv\<close>, \<^verbatim>\<open>np.dot\<close>). Both are arrays of \<^verbatim>\<open>num_samples\<close> rows and
  \<^verbatim>\<open>len(mean_values)\<close> columns, and \<^verbatim>\<open>desired_corr\<close> is square of that size once line 238 has
  not raised. The random draw and the library calls are outside the model: the two arrays are
  arguments of the embedding, which is the rest of the function, from line 257 on.
\<close>

text \<open>\<^verbatim>\<open>v[j]\<close> on a caller-supplied vector.\<close>

definition vec_get :: "'a list \<Rightarrow> nat \<Rightarrow> py_error + 'a" where
  "vec_get v j = (if j < length v then Inr (v ! j) else Inl IndexError)"

text \<open>\<^verbatim>\<open>m[:, j]\<close> and \<^verbatim>\<open>m[:, j] = v\<close>.\<close>

definition column :: "'a list list \<Rightarrow> nat \<Rightarrow> 'a list" where
  "column m j = map (\<lambda>row. row ! j) m"

definition set_column :: "'a list list \<Rightarrow> nat \<Rightarrow> 'a list \<Rightarrow> 'a list list" where
  "set_column m j v = map2 (\<lambda>row x. row[j := x]) m v"

text \<open>
  The order in which NumPy sorts float64 values: the negative infinity, the finite numbers,
  the positive infinity, and NaN last.
\<close>

definition sort_order :: "f64 \<Rightarrow> nat \<times> real" where
  "sort_order v = (case v of NInf \<Rightarrow> (0, 0) | Fin x \<Rightarrow> (1, x) | PInf \<Rightarrow> (2, 0) | NaN \<Rightarrow> (3, 0))"

text \<open>
  \<^verbatim>\<open>np.argsort(v)\<close>: the indices of \<open>v\<close> in ascending order of their values, and \<^verbatim>\<open>np.sort(v)\<close>.
  (Among equal values the order NumPy's default sort leaves is unspecified; the model keeps
  the order of the indices.)
\<close>

definition np_argsort :: "vec \<Rightarrow> nat list" where
  "np_argsort v = sort_key (\<lambda>i. sort_order (v ! i)) [0..<length v]"

definition np_sort :: "vec \<Rightarrow> vec" where
  "np_sort v = sort_key sort_order v"

text \<open>
  \<^verbatim>\<open>
  rank = np.zeros(np.shape(r), dtype=int)
  rank[r] = np.array(range(num_samples))
  \<close>
\<close>

definition ranks :: "nat list \<Rightarrow> nat \<Rightarrow> nat list" where
  "ranks r num_samples = fold (\<lambda>t rank. rank[r ! t := t]) [0..<num_samples] (replicate (length r) 0)"

text \<open>
  The loop over the variables:
  \<^verbatim>\<open>
  for j in range(num_vars):
      r = np.argsort(dependent_samples[:, j])
      rank = np.zeros(np.shape(r), dtype=int)
      rank[r] = np.array(range(num_samples))
      rs = np.sort(samples[:, j])
      z[:, j] = np.multiply(rs[rank], std_dev[j]) + mean_values[j]
  \<close>
\<close>

definition rerank_columns ::
  "rounding \<Rightarrow> vec \<Rightarrow> vec \<Rightarrow> matrix \<Rightarrow> matrix \<Rightarrow> nat \<Rightarrow> nat \<Rightarrow> matrix \<Rightarrow> py_error + matrix" where
  "rerank_columns rnd mean_values std_dev samples dependent_samples num_vars num_samples z =
     for_loop [0..<num_vars] (\<lambda>j z.
       let r = np_argsort (column dependent_samples j);
           rank = ranks r num_samples;
           rs = np_sort (column samples j)
       in case vec_get std_dev j of
            Inl err \<Rightarrow> Inl err
          | Inr sd \<Rightarrow>
              Inr (set_column z j
                (map (\<lambda>k. fadd rnd (fmul rnd (rs ! k) sd) (mean_values ! j)) rank))) z"

text \<open>
  \<^verbatim>\<open>np.corrcoef(x)\<close> with the variables in the rows of \<open>x\<close>, as NumPy computes it: \<^verbatim>\<open>np.cov\<close>
  centres every row on its mean (the sum divided by the number of observations), takes the
  products of the rows and multiplies them by \<^verbatim>\<open>np.true_divide(1, fact)\<close>, where \<open>fact\<close> is the
  number of observations less one; \<^verbatim>\<open>np.corrcoef\<close> then divides row \<open>i\<close> by the square root
  of the \<open>i\<close>-th variance, column \<open>j\<close> by that of the \<open>j\<close>-th, and clips to \<open>[-1, 1]\<close>. For a
  single variable the covariance is a scalar \<open>c\<close> and the result is \<open>c / c\<close>. Sums are taken
  from the left (NumPy and BLAS may add in another order).
\<close>

definition np_sum :: "rounding \<Rightarrow> vec \<Rightarrow> f64" where
  "np_sum rnd v = foldl (fadd rnd) (Fin 0) v"

definition np_mean :: "rounding \<Rightarrow> vec \<Rightarrow> f64" where
  "np_mean rnd v = fdiv rnd (np_sum rnd v) (float_of_nat rnd (length v))"

definition np_cov :: "rounding \<Rightarrow> matrix \<Rightarrow> matrix" where
  "np_cov rnd x =
     (let xc = map (\<lambda>row. map (\<lambda>v. fsub rnd v (np_mean rnd row)) row) x;
          fact = float_of_nat rnd (cols x - 1)
      in map (\<lambda>u. map (\<lambda>w. fmul rnd (np_sum rnd (map2 (fmul rnd) u w)) (fdiv rnd (Fin 1) fact)) xc) xc)"

text \<open>\<^verbatim>\<open>np.clip(v, -1, 1)\<close>: NaN stays NaN.\<close>

definition np_clip :: "f64 \<Rightarrow> f64" where
  "np_clip v = (if flt v (Fin (- 1)) then Fin (- 1) else if flt (Fin 1) v then Fin 1 else v)"

definition np_corrcoef :: "rounding \<Rightarrow> matrix \<Rightarrow> matrix" where
  "np_corrcoef rnd x =
     (let c = np_cov rnd x;
          stddev = map (fsqrt rnd) (diag_of c)
      in if length x = 1 then [[fdiv rnd (c ! 0 ! 0) (c ! 0 ! 0)]]
         else map (\<lambda>i. map (\<lambda>j. np_clip (fdiv rnd (fdiv rnd (c ! i ! j) (stddev ! i)) (stddev ! j)))
                [0..<length c]) [0..<length c])"

text \<open>
  \<^verbatim>\<open>ae = np.abs(np.corrcoef(z.T) - desired_corr).sum().sum()\<close>: the sum of all the entries (the
  second \<^verbatim>\<open>sum\<close> is applied to a scalar).
\<close>

definition corr_error :: "rounding \<Rightarrow> matrix \<Rightarrow> matrix \<Rightarrow> f64" where
  "corr_error rnd z desired_corr =
     np_sum rnd (concat (map2 (map2 (\<lambda>a b. fabs (fsub rnd a b))) (np_corrcoef rnd (mat_T z))
       desired_corr))"

text \<open>
  \<^verbatim>\<open>ntry = 1\<close> and \<^verbatim>\<open>amin = 1.8e308\<close>: the literal is rounded as every float literal is, and
  is above the largest float64.
\<close>

definition ntry :: nat where
  "ntry = 1"

definition amin0 :: "rounding \<Rightarrow> f64" where
  "amin0 rnd = rnd (18 * 10 ^ 307)"

text \<open>
  One pass of the loop \<^verbatim>\<open>for il in range(ntry)\<close>, on the variables \<open>amin\<close>, \<open>zb\<close> (unbound
  at first) and \<open>z\<close>:
  \<^verbatim>\<open>
  for j in range(num_vars): ...
  ae = np.abs(np.corrcoef(z.T) - desired_corr).sum().sum()
  if ae < amin:
      zb = z
      amin = ae
  else:
      raise Exception('Could not order samples ae={0}'.format(ae))
  \<close>
\<close>

definition attempt ::
  "rounding \<Rightarrow> vec \<Rightarrow> vec \<Rightarrow> matrix \<Rightarrow> matrix \<Rightarrow> matrix \<Rightarrow> nat \<Rightarrow> nat \<Rightarrow> nat \<Rightarrow>
   f64 \<times> matrix option \<times> matrix \<Rightarrow> py_error + f64 \<times> matrix option \<times> matrix" where
  "attempt rnd mean_values std_dev desired_corr samples dependent_samples num_vars num_samples il st =
     (case st of (amin, zb, z) \<Rightarrow>
        (case rerank_columns rnd mean_values std_dev samples dependent_samples num_vars num_samples z of
           Inl err \<Rightarrow> Inl err
         | Inr z \<Rightarrow>
            (let ae = corr_error rnd z desired_corr
             in if flt ae amin then Inr (ae, Some z, z) else Inl CouldNotOrderSamples)))"

text \<open>
  \<^verbatim>\<open>
  ntry = 1
  amin = 1.8e308
  z = np.zeros(np.shape(samples))
  for il in range(ntry): ...
  return zb
  \<close>
\<close>

definition lhs_normal_sample_corr ::
  "rounding \<Rightarrow> vec \<Rightarrow> vec \<Rightarrow> matrix \<Rightarrow> nat \<Rightarrow> matrix \<Rightarrow> matrix \<Rightarrow> py_error + matrix" where
  "lhs_normal_sample_corr rnd mean_values std_dev desired_corr num_samples samples dependent_samples =
     (let num_vars = length mean_values;
          z = map (map (\<lambda>_. Fin 0)) samples
      in case for_loop [0..<ntry]
                (attempt rnd mean_values std_dev desired_corr samples dependent_samples num_vars
                   num_samples)
                (amin0 rnd, None, z) of
           Inl err \<Rightarrow> Inl err
         | Inr (amin, zb, z) \<Rightarrow>
            (case zb of None \<Rightarrow> Inl UnboundLocalError | Some zb \<Rightarrow> Inr zb))"

text \<open>An array of \<open>M\<close> rows and \<open>N\<close> columns.\<close>

definition is_shape :: "nat \<Rightarrow> nat \<Rightarrow> 'a list list \<Rightarrow> bool" where
  "is_shape M N m \<longleftrightarrow> length m = M \<and> list_all (\<lambda>row. length row = N) m"

text \<open>
  Column \<open>j\<close> as the loop over the variables leaves it: the sorted column \<open>j\<close> of
  \<^verbatim>\<open>samples\<close>, read at the ranks of column \<open>j\<close> of \<^verbatim>\<open>dependent_samples\<close>, scaled and shifted.
\<close>

definition rank_matched_column ::
  "rounding \<Rightarrow> vec \<Rightarrow> vec \<Rightarrow> matrix \<Rightarrow> matrix \<Rightarrow> nat \<Rightarrow> nat \<Rightarrow> vec" where
  "rank_matched_column rnd mean_values std_dev samples dependent_samples num_samples j =
     map (\<lambda>k. fadd rnd (fmul rnd (np_sort (column samples j) ! k) (std_dev ! j)) (mean_values ! j))
       (ranks (np_argsort (column dependent_samples j)) num_samples)"

text \<open>A value that is zero or positive, the positive infinity, or NaN.\<close>

fun not_negative :: "f64 \<Rightarrow> bool" where
  "not_negative (Fin x) = (0 \<le> x)"
| "not_negative NInf = False"
| "not_negative v = True"

section \<open>Facts about the rounding\<close>

lemma rne_of_int: "rne (of_int k) = k"
  by (simp add: rne_def)



lemma rne_error: "\<bar>of_int (rne x) - x\<bar> \<le> 1 / 2"
proof -
  have "of_int \<lfloor>x\<rfloor> \<le> x" "x < of_int \<lfloor>x\<rfloor> + 1" by linarith+
  then show ?thesis by (auto simp: rne_def Let_def)
qed

lemma rne_ge:
  assumes "of_int k \<le> x"
  shows "k \<le> rne x"
proof -
  have "k \<le> \<lfloor>x\<rfloor>" using assms by (simp add: le_floor_iff)
  moreover have "\<lfloor>x\<rfloor> \<le> rne x" by (simp add: rne_def Let_def)
  ultimately show ?thesis by simp
qed

lemma rne_le:
  assumes "x \<le> of_int k"
  shows "rne x \<le> k"
proof (cases "x = of_int k")
  case True then show ?thesis by (simp add: rne_of_int)
next
  case False
  then have "x < of_int k" using assms by simp
  then have "\<lfloor>x\<rfloor> < k" by (simp add: floor_less_iff)
  moreover have "rne x \<le> \<lfloor>x\<rfloor> + 1" by (simp add: rne_def Let_def)
  ultimately show ?thesis by simp
qed

lemma two_powr_int: "0 \<le> k \<Longrightarrow> 2 powr (of_int k) = (2::real) ^ nat k"
  by (simp add: powr_realpow[symmetric])

lemma two_powr_numeral_1024: "(2::real) ^ 1024 = 2 powr 1024"
  by (simp add: powr_realpow[symmetric, of 2 1024])

lemma binade:
  assumes "x \<noteq> 0"
  shows "2 powr (of_int \<lfloor>log 2 \<bar>x\<bar>\<rfloor>) \<le> \<bar>x\<bar>" "\<bar>x\<bar> < 2 powr (of_int \<lfloor>log 2 \<bar>x\<bar>\<rfloor> + 1)"
  using floor_log_eq_powr_iff[of "\<bar>x\<bar>" 2 "\<lfloor>log 2 \<bar>x\<bar>\<rfloor>"] assms by simp_all

lemma binade_unique:
  assumes "2 powr (of_int e) \<le> \<bar>x\<bar>" "\<bar>x\<bar> < 2 powr (of_int e + 1)"
  shows "\<lfloor>log 2 \<bar>x\<bar>\<rfloor> = e"
proof -
  have "0 < \<bar>x\<bar>" using assms(1) by (smt (verit) powr_gt_zero)
  then show ?thesis using floor_log_eq_powr_iff[of "\<bar>x\<bar>" 2 e] assms by simp
qed

text \<open>The rounding of a number whose binade is known.\<close>

lemma round64_binade:
  assumes "2 powr (of_int e) \<le> \<bar>x\<bar>" "\<bar>x\<bar> < 2 powr (of_int e + 1)"
  defines "u \<equiv> 2 powr (of_int (max e (- 1022)) - 52)"
  shows "round64 x =
     (if 2 ^ 1024 \<le> \<bar>of_int (rne (x / u)) * u\<bar> then (if 0 < x then PInf else NInf)
      else Fin (of_int (rne (x / u)) * u))"
proof -
  have "0 < \<bar>x\<bar>" using assms(1) by (smt (verit) powr_gt_zero)
  then have "x \<noteq> 0" by simp
  then show ?thesis
    by (simp add: round64_def ulp64_def binade_unique[OF assms(1,2)] u_def Let_def)
qed

lemma round64_exactI:
  assumes x: "x = of_int m * 2 powr (of_int k)" and m: "\<bar>m\<bar> < 2 ^ 53" and k: "- 1074 \<le> k"
    and fin: "\<bar>x\<bar> < 2 ^ 1024"
  shows "round64 x = Fin x"
proof (cases "x = 0")
  case True then show ?thesis by (simp add: round64_def)
next
  case False
  define e where "e = \<lfloor>log 2 \<bar>x\<bar>\<rfloor>"
  define E where "E = max e (- 1022)"
  define u :: real where "u = 2 powr (of_int E - 52)"
  note b = binade[OF False, folded e_def]
  have kE: "E - 52 \<le> k"
  proof (cases "- 1022 \<le> e")
    case True
    have "2 powr (of_int e) \<le> \<bar>x\<bar>" by (rule b)
    also have "\<bar>x\<bar> = \<bar>of_int m\<bar> * 2 powr (of_int k)" by (simp add: x abs_mult)
    also have "\<dots> < 2 ^ 53 * 2 powr (of_int k)"
    proof (rule mult_strict_right_mono)
      have "real_of_int \<bar>m\<bar> < real_of_int (2 ^ 53)" using m by (simp only: of_int_less_iff)
      then show "\<bar>real_of_int m\<bar> < 2 ^ 53" by simp
    qed simp
    also have "\<dots> = 2 powr (of_int (53 + k))"
      by (simp add: powr_add powr_realpow[symmetric, of 2 53])
    finally have "of_int e < (of_int (53 + k) :: real)" by simp
    then have "e < 53 + k" by (simp only: of_int_less_iff)
    then show ?thesis using True by (simp add: E_def)
  next
    case False then show ?thesis using k by (simp add: E_def)
  qed
  define d where "d = k - (E - 52)"
  have d0: "0 \<le> d" using kE by (simp add: d_def)
  have "x / u = of_int m * (2 powr (of_int k) / 2 powr (of_int E - 52))" by (simp add: x u_def)
  also have "2 powr (of_int k) / 2 powr (of_int E - 52) = (2::real) powr (of_int d)"
    by (simp add: powr_diff[symmetric] d_def)
  also have "\<dots> = 2 ^ nat d" by (rule two_powr_int[OF d0])
  finally have "x / u = of_int (m * 2 ^ nat d)" by simp
  then have r: "of_int (rne (x / u)) = x / u" by (simp only: rne_of_int)
  have u0: "u \<noteq> 0" by (simp add: u_def)
  have "of_int (rne (x / u)) * u = x" unfolding r using u0 by simp
  moreover have "ulp64 x = u" by (simp add: ulp64_def u_def E_def e_def)
  ultimately show ?thesis using False fin by (simp add: round64_def)
qed

lemma round64_int:
  assumes "x \<in> \<int>" "\<bar>x\<bar> < 2 ^ 53"
  shows "round64 x = Fin x"
proof -
  from assms(1) obtain m where x: "x = of_int m" by (auto elim: Ints_cases)
  have "\<bar>m\<bar> < 2 ^ 53" using assms(2) unfolding x by (metis of_int_abs of_int_less_numeral_power_cancel_iff)
  moreover have "\<bar>x\<bar> < 2 ^ 1024"
    by (rule less_trans[OF assms(2)]) simp
  ultimately show ?thesis using round64_exactI[of x m 0] x by simp
qed

lemma round64_frac:
  assumes "x * 2 ^ 30 \<in> \<int>" "\<bar>x\<bar> < 2 ^ 20"
  shows "round64 x = Fin x"
proof -
  from assms(1) obtain m where m: "x * 2 ^ 30 = of_int m" by (auto elim: Ints_cases)
  have "\<bar>real_of_int m\<bar> = \<bar>x\<bar> * 2 ^ 30" by (simp add: m[symmetric] abs_mult)
  also have "\<dots> < 2 ^ 20 * 2 ^ 30" using assms(2) by simp
  finally have "\<bar>real_of_int m\<bar> < 2 ^ 53" by simp
  then have m53: "\<bar>m\<bar> < 2 ^ 53" by (metis of_int_abs of_int_less_numeral_power_cancel_iff)
  have "x = of_int m * 2 powr (of_int (- 30))"
    using m by (simp add: powr_minus powr_realpow[symmetric, of 2 30] field_simps)
  moreover have "\<bar>x\<bar> < 2 ^ 1024"
    by (rule less_trans[OF assms(2)]) simp
  ultimately show ?thesis using round64_exactI[of x m "- 30"] m53 by simp
qed


text \<open>A positive number of the normal range is not rounded below its binade.\<close>

lemma round64_lower:
  assumes e: "- 1022 \<le> e" and x: "2 powr (of_int e) \<le> x"
  shows "round64 x = PInf \<or> (\<exists>y. round64 x = Fin y \<and> 2 powr (of_int e) \<le> y)"
proof -
  have x0: "0 < x" using x by (smt (verit) powr_gt_zero)
  then have xn: "x \<noteq> 0" and ax: "\<bar>x\<bar> = x" by simp_all
  define e' where "e' = \<lfloor>log 2 \<bar>x\<bar>\<rfloor>"
  note b = binade[OF xn, folded e'_def]
  have "2 powr (of_int e) < (2::real) powr (of_int e' + 1)"
    by (rule le_less_trans[OF x]) (use b(2) ax in simp)
  then have "of_int e < (of_int e' + 1 :: real)" by simp
  then have ee: "e \<le> e'" by linarith
  then have E: "max e' (- 1022) = e'" using e by simp
  define u :: real where "u = 2 powr (of_int e' - 52)"
  have u0: "0 < u" by (simp add: u_def)
  have "2 ^ 52 * u = 2 powr (of_int e')"
    by (simp add: u_def powr_diff powr_realpow[symmetric, of 2 52])
  then have "of_int (2 ^ 52) \<le> x / u" using b(1) ax u0 by (simp add: field_simps)
  then have "2 ^ 52 \<le> rne (x / u)" by (rule rne_ge)
  then have "(2::real) ^ 52 \<le> of_int (rne (x / u))" by (metis of_int_le_iff of_int_numeral of_int_power)
  then have "2 ^ 52 * u \<le> of_int (rne (x / u)) * u" using u0 by simp
  then have y: "2 powr (of_int e') \<le> of_int (rne (x / u)) * u"
    using \<open>2 ^ 52 * u = 2 powr (of_int e')\<close> by simp
  have "2 powr (of_int e) \<le> (2::real) powr (of_int e')" using ee by simp
  from this y have y': "2 powr (of_int e) \<le> of_int (rne (x / u)) * u" by (rule order_trans)
  have r: "round64 x =
     (if 2 ^ 1024 \<le> \<bar>of_int (rne (x / u)) * u\<bar> then (if 0 < x then PInf else NInf)
      else Fin (of_int (rne (x / u)) * u))"
    using round64_binade[OF b] by (simp add: E u_def)
  show ?thesis unfolding r using x0 y' by simp
qed

lemma round64_overflow:
  assumes "2 ^ 1024 \<le> x"
  shows "round64 x = PInf"
proof -
  have "2 powr (of_int 1024) \<le> x" using assms by (simp add: two_powr_numeral_1024)
  from round64_lower[OF _ this] show ?thesis
    by (auto simp: round64_def two_powr_numeral_1024 Let_def split: if_splits)
qed

text \<open>A number that \<open>round64\<close> returns is a number of the format.\<close>

lemma round64_repr:
  assumes "round64 x = Fin y"
  shows "\<exists>m k. y = of_int m * 2 powr (of_int k) \<and> \<bar>m\<bar> < 2 ^ 53 \<and> - 1074 \<le> k \<and> \<bar>y\<bar> < 2 ^ 1024"
proof (cases "x = 0")
  case True
  then have "y = of_int 0 * 2 powr (of_int 0)" using assms by (auto simp: round64_def)
  then show ?thesis by (intro exI[of _ 0] exI[of _ "0::int"]) simp
next
  case False
  define e where "e = \<lfloor>log 2 \<bar>x\<bar>\<rfloor>"
  define E where "E = max e (- 1022)"
  define u :: real where "u = 2 powr (of_int E - 52)"
  define n where "n = rne (x / u)"
  note b = binade[OF False, folded e_def]
  have u0: "0 < u" by (simp add: u_def)
  have ru: "ulp64 x = u" by (simp add: ulp64_def u_def E_def e_def)
  from assms False have y: "y = of_int n * u" and fin: "\<bar>y\<bar> < 2 ^ 1024"
    by (auto simp: round64_def ru n_def Let_def split: if_splits)
  have "\<bar>x\<bar> < 2 powr (of_int E + 1)"
    by (rule less_le_trans[OF b(2)]) (simp add: E_def)
  also have "\<dots> = 2 ^ 53 * u" by (simp add: u_def powr_diff powr_add powr_realpow[symmetric, of 2 52])
  finally have "\<bar>x / u\<bar> < 2 ^ 53" using u0 by (simp add: field_simps)
  then have "x / u \<le> of_int (2 ^ 53)" "of_int (- (2 ^ 53)) \<le> x / u"
    unfolding abs_less_iff by simp_all
  then have "n \<le> 2 ^ 53" "- (2 ^ 53) \<le> n" unfolding n_def by (simp_all only: rne_le rne_ge)
  then consider "\<bar>n\<bar> < 2 ^ 53" | "n = 2 ^ 53" | "n = - (2 ^ 53)" by linarith
  then show ?thesis
  proof cases
    case 1
    have "- 1074 \<le> E - 52" by (simp add: E_def)
    moreover have "y = of_int n * 2 powr (of_int (E - 52))" by (simp add: y u_def)
    ultimately show ?thesis using 1 fin by blast
  next
    case 2
    have "y = of_int 1 * 2 powr (of_int (E + 1))"
      by (simp add: y 2 u_def powr_diff powr_add powr_realpow[symmetric, of 2 52])
    moreover have "- 1074 \<le> E + 1" by (simp add: E_def)
    moreover have "\<bar>1::int\<bar> < 2 ^ 53" by simp
    ultimately show ?thesis using fin by blast
  next
    case 3
    have "y = of_int (- 1) * 2 powr (of_int (E + 1))"
      by (simp add: y 3 u_def powr_diff powr_add powr_realpow[symmetric, of 2 52])
    moreover have "- 1074 \<le> E + 1" by (simp add: E_def)
    moreover have "\<bar>- 1::int\<bar> < 2 ^ 53" by simp
    ultimately show ?thesis using fin by blast
  qed
qed

lemma round64_idem:
  assumes "round64 x = Fin y"
  shows "round64 y = Fin y"
proof -
  from round64_repr[OF assms] obtain m k where
    "y = of_int m * 2 powr (of_int k)" "\<bar>m\<bar> < 2 ^ 53" "- 1074 \<le> k" "\<bar>y\<bar> < 2 ^ 1024" by blast
  then show ?thesis by (rule round64_exactI)
qed


lemma rounding_ok_round64: "rounding_ok round64"
  unfolding rounding_ok_def
proof (intro conjI allI impI)
  show "round64 0 = Fin 0" by (simp add: round64_def)
  show "round64 1 = Fin 1" by (rule round64_int) simp_all
  show "round64 2 = Fin 2" by (rule round64_int) simp_all
  show "round64 y = Fin y" if "round64 x = Fin y" for x y using that by (rule round64_idem)
qed


lemma rounding_okD:
  assumes "rounding_ok rnd"
  shows "rnd 0 = Fin 0" "rnd 1 = Fin 1" "rnd 2 = Fin 2" "\<And>x y. rnd x = Fin y \<Longrightarrow> rnd y = Fin y"
  using assms by (auto simp: rounding_ok_def)

text \<open>The rounding keeps the sign.\<close>

lemma round64_nonneg:
  assumes "0 \<le> x"
  shows "not_negative (round64 x)"
proof (cases "x = 0")
  case True then show ?thesis by (simp add: round64_def)
next
  case False
  with assms have x0: "0 < x" by simp
  have u0: "0 < ulp64 x" by (simp add: ulp64_def)
  have "of_int 0 \<le> x / ulp64 x" using x0 u0 by simp
  then have "0 \<le> rne (x / ulp64 x)" by (rule rne_ge)
  then have "0 \<le> real_of_int (rne (x / ulp64 x)) * ulp64 x" using u0 by simp
  then show ?thesis using x0 by (simp add: round64_def Let_def)
qed

lemma amin0_round64: "amin0 round64 = PInf"
  unfolding amin0_def by (rule round64_overflow) simp

section \<open>Properties of the converters\<close>

lemma is_squareD: "is_square n m \<Longrightarrow> length m = n" "is_square n m \<Longrightarrow> i < n \<Longrightarrow> length (m ! i) = n"
  by (auto simp: is_square_def list_all_length)

lemma is_squareI: "length m = n \<Longrightarrow> (\<And>i. i < n \<Longrightarrow> length (m ! i) = n) \<Longrightarrow> is_square n m"
  by (auto simp: is_square_def list_all_length)


lemma for_loop_pure:
  "(\<And>i s. i \<in> set xs \<Longrightarrow> body i s = Inr (f i s)) \<Longrightarrow> for_loop xs body s = Inr (fold f xs s)"
  by (induction xs arbitrary: s) auto

lemma for_loop_cong:
  "(\<And>i s. i \<in> set xs \<Longrightarrow> body i s = body' i s) \<Longrightarrow> for_loop xs body s = for_loop xs body' s"
  by (induction xs arbitrary: s) (auto split: sum.splits)

lemma for_loop_fails:
  assumes "\<And>i s. i \<in> set xs \<Longrightarrow> body i s = Inl e \<or> (\<exists>s'. body i s = Inr s')"
    and "\<exists>i\<in>set xs. \<forall>s. body i s = Inl e"
  shows "for_loop xs body s = Inl e"
  using assms
proof (induction xs arbitrary: s)
  case Nil then show ?case by simp
next
  case (Cons x xs)
  show ?case
  proof (cases "body x s")
    case (Inl a)
    with Cons.prems(1)[of x s] show ?thesis by auto
  next
    case (Inr s')
    with Cons.prems(2) have "\<exists>i\<in>set xs. \<forall>s. body i s = Inl e" by auto
    with Cons.IH[of s'] Cons.prems(1) Inr show ?thesis by auto
  qed
qed

lemma mat_set_square:
  assumes "is_square n m"
  shows "is_square n (mat_set m i j v)"
proof (rule is_squareI)
  show "length (mat_set m i j v) = n"
    using assms by (simp add: mat_set_def is_squareD)
next
  fix a assume "a < n"
  with assms show "length (mat_set m i j v ! a) = n"
    by (cases "a = i") (simp_all add: mat_set_def is_squareD)
qed

lemma mat_set_nth:
  "is_square n m \<Longrightarrow> i < n \<Longrightarrow> j < n \<Longrightarrow> a < n \<Longrightarrow> b < n \<Longrightarrow>
   mat_set m i j v ! a ! b = (if a = i \<and> b = j then v else m ! a ! b)"
  by (auto simp: is_square_def mat_set_def list_all_length nth_list_update)

lemma fill_row:
  assumes "is_square n m" "i < n" "hi \<le> n"
  shows "is_square n (fold (\<lambda>j m. mat_set m i j (g j)) [lo..<hi] m) \<and>
     (\<forall>a<n. \<forall>b<n. fold (\<lambda>j m. mat_set m i j (g j)) [lo..<hi] m ! a ! b =
        (if a = i \<and> lo \<le> b \<and> b < hi then g b else m ! a ! b))"
  using assms(3)
proof (induction hi)
  case 0 with assms show ?case by simp
next
  case (Suc hi)
  show ?case
  proof (cases "lo \<le> hi")
    case True
    with Suc assms show ?thesis
      by (auto simp: mat_set_square mat_set_nth)
  next
    case False
    with assms show ?thesis by auto
  qed
qed

lemma fill_upper:
  assumes "is_square n m" "k \<le> n"
  shows "is_square n (fold (\<lambda>i m. fold (\<lambda>j m. mat_set m i j (g i j)) [i + 1..<n] m) [0..<k] m) \<and>
     (\<forall>a<n. \<forall>b<n. fold (\<lambda>i m. fold (\<lambda>j m. mat_set m i j (g i j)) [i + 1..<n] m) [0..<k] m ! a ! b =
        (if a < k \<and> a < b then g a b else m ! a ! b))"
  using assms(2)
proof (induction k)
  case 0 with assms show ?case by simp
next
  case (Suc k)
  let ?m = "fold (\<lambda>i m. fold (\<lambda>j m. mat_set m i j (g i j)) [i + 1..<n] m) [0..<k] m"
  from Suc have sq: "is_square n ?m" and k: "k < n" by auto
  from fill_row[OF sq k order_refl, of "g k" "k + 1"] Suc
  show ?case by (auto simp: less_Suc_eq)
qed

lemma np_diag_square: "is_square (length v) (np_diag v)"
  by (auto simp: is_square_def np_diag_def list_all_length)

lemma np_diag_nth:
  "a < length v \<Longrightarrow> b < length v \<Longrightarrow> np_diag v ! a ! b = (if a = b then v ! a else Fin 0)"
  by (auto simp: np_diag_def)

lemma cols_square: "is_square n m \<Longrightarrow> cols m = n"
  by (cases m) (auto simp: cols_def is_square_def)

lemma mat_T_square: "is_square n m \<Longrightarrow> is_square n (mat_T m)"
  by (rule is_squareI) (simp_all add: mat_T_def cols_square is_squareD)

lemma mat_T_nth: "is_square n m \<Longrightarrow> a < n \<Longrightarrow> b < n \<Longrightarrow> mat_T m ! a ! b = m ! b ! a"
  by (simp add: mat_T_def cols_square is_squareD)

lemma mirror_upper_square:
  assumes "is_square n c"
  shows "is_square n (mirror_upper rnd c)"
proof (rule is_squareI)
  show "length (mirror_upper rnd c) = n"
    using assms mat_T_square[OF assms]
    by (simp add: mirror_upper_def mat_add_def mat_sub_def np_diag_def diag_of_def is_squareD)
next
  fix a assume "a < n"
  with assms mat_T_square[OF assms] show "length (mirror_upper rnd c ! a) = n"
    by (simp add: mirror_upper_def mat_add_def mat_sub_def np_diag_def diag_of_def is_squareD)
qed

lemma mirror_upper_nth:
  assumes "is_square n c" "a < n" "b < n"
  shows "mirror_upper rnd c ! a ! b =
     fsub rnd (fadd rnd (c ! a ! b) (c ! b ! a)) (if a = b then c ! a ! a else Fin 0)"
  using assms mat_T_square[OF assms(1)] mat_T_nth[OF assms]
  by (simp add: mirror_upper_def mat_add_def mat_sub_def np_diag_def diag_of_def is_squareD)


text \<open>Adding a zero to a number of the format, and the results of the operations.\<close>

lemma is_float_cases:
  "is_float rnd v \<longleftrightarrow> (\<forall>x. v = Fin x \<longrightarrow> rnd x = Fin x)"
  by (cases v) auto

lemma fadd_zero:
  assumes "is_float rnd v"
  shows "fadd rnd v (Fin 0) = v" "fadd rnd (Fin 0) v = v" "fsub rnd v (Fin 0) = v"
  using assms by (cases v; simp add: fsub_def)+

lemma fadd_commute: "fadd rnd a b = fadd rnd b a"
  by (cases a; cases b) (simp_all add: add.commute)

lemma rnd_is_float: "rounding_ok rnd \<Longrightarrow> is_float rnd (rnd x)"
  by (cases "rnd x") (auto simp: rounding_ok_def)

lemma signed_inf_float: "is_float rnd (signed_inf b)"
  by (simp add: signed_inf_def)


lemma fdiv_is_float: "rounding_ok rnd \<Longrightarrow> is_float rnd (fdiv rnd a b)"
  by (cases a; cases b) (simp_all add: rnd_is_float signed_inf_float rounding_okD)

lemma fadd_is_float: "rounding_ok rnd \<Longrightarrow> is_float rnd (fadd rnd a b)"
  by (cases a; cases b) (simp_all add: rnd_is_float)

lemma fsub_is_float: "rounding_ok rnd \<Longrightarrow> is_float rnd (fsub rnd a b)"
  by (simp add: fsub_def fadd_is_float)

lemma fsqrt_is_float: "rounding_ok rnd \<Longrightarrow> is_float rnd (fsqrt rnd a)"
  by (cases a) (simp_all add: rnd_is_float)

lemma fsquare_is_float: "rounding_ok rnd \<Longrightarrow> is_float rnd (fsquare rnd a)"
  by (cases a) (simp_all add: rnd_is_float)

lemma one_plus_one:
  assumes "rounding_ok rnd"
  shows "fsub rnd (fadd rnd (Fin 1) (Fin 1)) (Fin 1) = Fin 1"
  using rounding_okD[OF assms] by (simp add: fsub_def)



text \<open>
  \<^verbatim>\<open>correlation_to_cov\<close> depends on \<^verbatim>\<open>corr\<close> through the reads \<open>corr[i, j]\<close>, \<open>i < j < len(std)\<close>,
  alone.
\<close>

lemma correlation_to_cov_cong:
  assumes h: "\<And>i j. i < j \<Longrightarrow> j < length std \<Longrightarrow> mat_get corr1 i j = mat_get corr2 i j"
  shows "correlation_to_cov rnd std corr1 = correlation_to_cov rnd std corr2"
proof -
  have "for_loop [0..<length std] (\<lambda>i cov.
                for_loop [i + 1..<length std] (\<lambda>j cov.
                  case mat_get corr1 i j of
                    Inl e \<Rightarrow> Inl e
                  | Inr c \<Rightarrow> Inr (mat_set cov i j (fmul rnd (fmul rnd c (std ! i)) (std ! j)))) cov) c0 =
        for_loop [0..<length std] (\<lambda>i cov.
                for_loop [i + 1..<length std] (\<lambda>j cov.
                  case mat_get corr2 i j of
                    Inl e \<Rightarrow> Inl e
                  | Inr c \<Rightarrow> Inr (mat_set cov i j (fmul rnd (fmul rnd c (std ! i)) (std ! j)))) cov) c0" for c0
    by (intro for_loop_cong) (use h in simp)
  then show ?thesis
    by (simp add: correlation_to_cov_def)
qed

text \<open>
  The reads of \<^verbatim>\<open>cov_to_correlation\<close>: \<open>cov[i, j]\<close>, \<open>cov[i, i]\<close> and \<open>cov[j, j]\<close> for
  \<open>i < j < len(cov)\<close>.
\<close>

lemma cov_to_correlation_cong:
  assumes len: "length cov1 = length cov2"
    and h: "\<And>i j. i \<le> j \<Longrightarrow> j < length cov1 \<Longrightarrow> mat_get cov1 i j = mat_get cov2 i j"
  shows "cov_to_correlation rnd cov1 = cov_to_correlation rnd cov2"
proof -
  have "for_loop [0..<length cov2] (\<lambda>i corr.
                for_loop [i + 1..<length cov2] (\<lambda>j corr.
                  case mat_get cov1 i j of
                    Inl e \<Rightarrow> Inl e
                  | Inr cij \<Rightarrow>
                     (case mat_get cov1 i i of
                        Inl e \<Rightarrow> Inl e
                      | Inr cii \<Rightarrow>
                         (case mat_get cov1 j j of
                            Inl e \<Rightarrow> Inl e
                          | Inr cjj \<Rightarrow>
                              Inr (mat_set corr i j
                                (fdiv rnd cij (fpow_half rnd (fabs (fmul rnd cii cjj)))))))) corr) c0 =
       for_loop [0..<length cov2] (\<lambda>i corr.
                for_loop [i + 1..<length cov2] (\<lambda>j corr.
                  case mat_get cov2 i j of
                    Inl e \<Rightarrow> Inl e
                  | Inr cij \<Rightarrow>
                     (case mat_get cov2 i i of
                        Inl e \<Rightarrow> Inl e
                      | Inr cii \<Rightarrow>
                         (case mat_get cov2 j j of
                            Inl e \<Rightarrow> Inl e
                          | Inr cjj \<Rightarrow>
                              Inr (mat_set corr i j
                                (fdiv rnd cij (fpow_half rnd (fabs (fmul rnd cii cjj)))))))) corr) c0" for c0
  proof (intro for_loop_cong)
    fix i s j t
    assume "i \<in> set [0..<length cov2]" "j \<in> set [i + 1..<length cov2]"
    then have "i < j" "j < length cov1" "i < length cov1" using len by auto
    with h have e: "mat_get cov1 i j = mat_get cov2 i j" "mat_get cov1 i i = mat_get cov2 i i"
      "mat_get cov1 j j = mat_get cov2 j j" by auto
    show "(case mat_get cov1 i j of
                    Inl e \<Rightarrow> Inl e
                  | Inr cij \<Rightarrow>
                     (case mat_get cov1 i i of
                        Inl e \<Rightarrow> Inl e
                      | Inr cii \<Rightarrow>
                         (case mat_get cov1 j j of
                            Inl e \<Rightarrow> Inl e
                          | Inr cjj \<Rightarrow>
                              Inr (mat_set t i j
                                (fdiv rnd cij (fpow_half rnd (fabs (fmul rnd cii cjj)))))))) =
                (case mat_get cov2 i j of
                    Inl e \<Rightarrow> Inl e
                  | Inr cij \<Rightarrow>
                     (case mat_get cov2 i i of
                        Inl e \<Rightarrow> Inl e
                      | Inr cii \<Rightarrow>
                         (case mat_get cov2 j j of
                            Inl e \<Rightarrow> Inl e
                          | Inr cjj \<Rightarrow>
                              Inr (mat_set t i j
                                (fdiv rnd cij (fpow_half rnd (fabs (fmul rnd cii cjj))))))))"
      unfolding e ..
  qed
  with len show ?thesis
    by (simp add: cov_to_correlation_def)
qed

lemma cov_reads_ok_iff:
  "cov_reads_ok m \<longleftrightarrow>
     (\<forall>j<length m. \<forall>i<j. j < length (m ! i) \<and> i < length (m ! i) \<and> j < length (m ! j))"
  by (auto simp: cov_reads_ok_def list_all_iff)

lemma cov_to_correlation_run:
  assumes ok: "cov_reads_ok cov"
  shows "cov_to_correlation rnd cov =
     Inr (mirror_upper rnd
       (fold (\<lambda>i m. fold (\<lambda>j m. mat_set m i j
           (fdiv rnd (cov ! i ! j) (fpow_half rnd (fabs (fmul rnd (cov ! i ! i) (cov ! j ! j))))))
           [i + 1..<length cov] m) [0..<length cov] (np_diag (replicate (length cov) (Fin 1)))))"
proof -
  let ?n = "length cov"
  let ?g = "\<lambda>i j. fdiv rnd (cov ! i ! j) (fpow_half rnd (fabs (fmul rnd (cov ! i ! i) (cov ! j ! j))))"
  let ?d = "np_diag (replicate ?n (Fin 1))"
  let ?inner = "\<lambda>i corr. for_loop [i + 1..<?n] (\<lambda>j corr.
                  case mat_get cov i j of
                    Inl e \<Rightarrow> Inl e
                  | Inr cij \<Rightarrow>
                     (case mat_get cov i i of
                        Inl e \<Rightarrow> Inl e
                      | Inr cii \<Rightarrow>
                         (case mat_get cov j j of
                            Inl e \<Rightarrow> Inl e
                          | Inr cjj \<Rightarrow>
                              Inr (mat_set corr i j
                                (fdiv rnd cij (fpow_half rnd (fabs (fmul rnd cii cjj)))))))) corr"
  let ?u = "fold (\<lambda>i m. fold (\<lambda>j m. mat_set m i j (?g i j)) [i + 1..<?n] m) [0..<?n] ?d"
  have get: "mat_get cov i j = Inr (cov ! i ! j)" "mat_get cov i i = Inr (cov ! i ! i)"
    "mat_get cov j j = Inr (cov ! j ! j)" if "i < j" "j < ?n" for i j
    using that ok by (auto simp: mat_get_def cov_reads_ok_iff)
  have inner: "?inner i corr = Inr (fold (\<lambda>j m. mat_set m i j (?g i j)) [i + 1..<?n] corr)" for i corr
  proof (rule for_loop_pure)
    fix j s assume "j \<in> set [i + 1..<?n]"
    then have ij: "i < j" "j < ?n" by auto
    show "(case mat_get cov i j of
                    Inl e \<Rightarrow> Inl e
                  | Inr cij \<Rightarrow>
                     (case mat_get cov i i of
                        Inl e \<Rightarrow> Inl e
                      | Inr cii \<Rightarrow>
                         (case mat_get cov j j of
                            Inl e \<Rightarrow> Inl e
                          | Inr cjj \<Rightarrow>
                              Inr (mat_set s i j
                                (fdiv rnd cij (fpow_half rnd (fabs (fmul rnd cii cjj)))))))) =
          Inr (mat_set s i j (?g i j))"
      by (simp add: get[OF ij])
  qed
  have outer: "for_loop [0..<?n] ?inner ?d = Inr ?u"
    by (rule for_loop_pure) (rule inner)
  show ?thesis
    unfolding cov_to_correlation_def Let_def outer by simp
qed

lemma cov_to_correlation_closed:
  assumes sq: "is_square n cov"
  shows "\<exists>corr. cov_to_correlation rnd cov = Inr corr \<and> is_square n corr \<and>
     (\<forall>a<n. \<forall>b<n. corr ! a ! b =
        (if a < b then
           fsub rnd (fadd rnd (fdiv rnd (cov ! a ! b)
             (fpow_half rnd (fabs (fmul rnd (cov ! a ! a) (cov ! b ! b))))) (Fin 0)) (Fin 0)
         else if b < a then
           fsub rnd (fadd rnd (Fin 0) (fdiv rnd (cov ! b ! a)
             (fpow_half rnd (fabs (fmul rnd (cov ! b ! b) (cov ! a ! a)))))) (Fin 0)
         else fsub rnd (fadd rnd (Fin 1) (Fin 1)) (Fin 1)))"
proof -
  have n: "length cov = n" using sq by (rule is_squareD)
  let ?g = "\<lambda>i j. fdiv rnd (cov ! i ! j) (fpow_half rnd (fabs (fmul rnd (cov ! i ! i) (cov ! j ! j))))"
  let ?d = "np_diag (replicate n (Fin 1))"
  let ?u = "fold (\<lambda>i m. fold (\<lambda>j m. mat_set m i j (?g i j)) [i + 1..<n] m) [0..<n] ?d"
  have ok: "cov_reads_ok cov" using sq by (auto simp: cov_reads_ok_iff is_squareD)
  have dsq: "is_square n ?d"
    using np_diag_square[of "replicate n (Fin 1)"] by simp
  from fill_upper[OF dsq order_refl, of ?g]
  have usq: "is_square n ?u"
    and u: "\<And>a b. a < n \<Longrightarrow> b < n \<Longrightarrow> ?u ! a ! b = (if a < b then ?g a b else ?d ! a ! b)"
    by auto
  have res: "cov_to_correlation rnd cov = Inr (mirror_upper rnd ?u)"
    using cov_to_correlation_run[OF ok, of rnd] unfolding n .
  have "mirror_upper rnd ?u ! a ! b =
        (if a < b then fsub rnd (fadd rnd (?g a b) (Fin 0)) (Fin 0)
         else if b < a then fsub rnd (fadd rnd (Fin 0) (?g b a)) (Fin 0)
         else fsub rnd (fadd rnd (Fin 1) (Fin 1)) (Fin 1))"
    if "a < n" "b < n" for a b
  proof -
    have "mirror_upper rnd ?u ! a ! b =
        fsub rnd (fadd rnd (?u ! a ! b) (?u ! b ! a)) (if a = b then ?u ! a ! a else Fin 0)"
      by (rule mirror_upper_nth[OF usq that])
    also have "\<dots> = (if a < b then fsub rnd (fadd rnd (?g a b) (Fin 0)) (Fin 0)
         else if b < a then fsub rnd (fadd rnd (Fin 0) (?g b a)) (Fin 0)
         else fsub rnd (fadd rnd (Fin 1) (Fin 1)) (Fin 1))"
      unfolding u[OF that] u[OF that(2) that(1)] u[OF that(1) that(1)]
      using that by (simp add: np_diag_nth)
    finally show ?thesis .
  qed
  with res mirror_upper_square[OF usq] show ?thesis by auto
qed




lemma cov_to_correlation_error:
  assumes bad: "\<not> cov_reads_ok cov"
  shows "cov_to_correlation rnd cov = Inl IndexError"
proof -
  let ?n = "length cov"
  let ?body = "\<lambda>i j corr. case mat_get cov i j of
                    Inl e \<Rightarrow> Inl e
                  | Inr cij \<Rightarrow>
                     (case mat_get cov i i of
                        Inl e \<Rightarrow> Inl e
                      | Inr cii \<Rightarrow>
                         (case mat_get cov j j of
                            Inl e \<Rightarrow> Inl e
                          | Inr cjj \<Rightarrow>
                              Inr (mat_set corr i j
                                (fdiv rnd cij (fpow_half rnd (fabs (fmul rnd cii cjj)))))))"
  let ?inner = "\<lambda>i corr. for_loop [i + 1..<?n] (?body i) corr"
  have body: "?body i j corr = Inl IndexError \<or> (\<exists>s'. ?body i j corr = Inr s')" for i j corr
    by (auto simp: mat_get_def)
  have inner: "?inner i corr = Inl IndexError \<or> (\<exists>s'. ?inner i corr = Inr s')" for i corr
  proof (cases "?inner i corr")
    case (Inl e)
    have "for_loop xs (?body i) s = Inl e \<Longrightarrow> e = IndexError" for xs s
      by (induction xs arbitrary: s) (auto simp: mat_get_def split: sum.splits if_splits)
    with Inl show ?thesis by auto
  qed auto
  from bad obtain i j where ij: "i < j" "j < ?n"
    "\<not> (j < length (cov ! i) \<and> i < length (cov ! i) \<and> j < length (cov ! j))"
    by (auto simp: cov_reads_ok_iff)
  have "\<forall>corr. ?inner i corr = Inl IndexError"
  proof
    fix corr
    show "?inner i corr = Inl IndexError"
      by (rule for_loop_fails[OF body]) (use ij in \<open>auto simp: mat_get_def intro!: bexI[of _ j]\<close>)
  qed
  with ij have "\<exists>i\<in>set [0..<?n]. \<forall>corr. ?inner i corr = Inl IndexError" by auto
  from for_loop_fails[of "[0..<?n]" ?inner IndexError, OF inner this]
  show ?thesis unfolding cov_to_correlation_def Let_def by simp
qed


lemma cov_to_correlation_values:
  assumes rnd: "rounding_ok rnd" and sq: "is_square n cov"
  shows "\<exists>corr. cov_to_correlation rnd cov = Inr corr \<and> is_square n corr \<and>
     (\<forall>a<n. \<forall>b<n. corr ! a ! b =
        (if a < b then
           fdiv rnd (cov ! a ! b) (fpow_half rnd (fabs (fmul rnd (cov ! a ! a) (cov ! b ! b))))
         else if b < a then
           fdiv rnd (cov ! b ! a) (fpow_half rnd (fabs (fmul rnd (cov ! b ! b) (cov ! a ! a))))
         else Fin 1))"
proof -
  have z: "fsub rnd (fadd rnd (fdiv rnd x y) (Fin 0)) (Fin 0) = fdiv rnd x y"
    "fsub rnd (fadd rnd (Fin 0) (fdiv rnd x y)) (Fin 0) = fdiv rnd x y" for x y
    by (simp_all add: fadd_zero fdiv_is_float[OF rnd])
  from cov_to_correlation_closed[OF sq, of rnd] show ?thesis
    unfolding z one_plus_one[OF rnd] .
qed



lemma pow_half_zero:
  assumes rnd: "rounding_ok rnd"
  shows "\<not> is_finite (fdiv rnd c (fpow_half rnd (fabs (Fin 0))))"
  using rounding_okD(1)[OF rnd] by (cases c) (simp_all add: signed_inf_def)







subsection \<open>Claims about the converters\<close>




text \<open>
  C7 as stated: \<^verbatim>\<open>cov_to_correlation\<close> signals no error for any input. It does: for the
  2 x 1 array \<open>[[1], [2]]\<close> the read \<^verbatim>\<open>cov[0, 1]\<close> raises \<^verbatim>\<open>IndexError\<close>.
\<close>

theorem cov_to_correlation_counterexample:
  "cov_to_correlation round64 [[Fin 1], [Fin 2]] = Inl IndexError"
  by (simp add: cov_to_correlation_def mat_get_def upt_rec)

text \<open>
  C7 as amended: for a square float64 array \<open>cov\<close>, \<^verbatim>\<open>cov_to_correlation(cov)\<close> returns,
  without an error, a matrix of the same size whose diagonal is exactly 1 and whose entries
  above the diagonal are the float64 quotients
  \<open>cov[i, j] / \<bar>cov[i, i] * cov[j, j]\<bar> ** 0.5\<close> (the absolute value under the root), each
  mirrored below the diagonal. Where the product of the two variances is zero the entry is an
  infinity or NaN. The call raises \<^verbatim>\<open>IndexError\<close> exactly for the inputs that lack one of the
  entries \<open>cov[i, j]\<close>, \<open>cov[i, i]\<close>, \<open>cov[j, j]\<close> with \<open>i < j < len(cov)\<close>.
\<close>

theorem cov_to_correlation_entries:
  "(rounding_ok rnd \<and> is_square n cov \<longrightarrow>
      (\<exists>corr. cov_to_correlation rnd cov = Inr corr \<and> is_square n corr \<and>
         (\<forall>i<n. corr ! i ! i = Fin 1) \<and>
         (\<forall>j<n. \<forall>i<j.
            corr ! i ! j =
              fdiv rnd (cov ! i ! j) (fpow_half rnd (fabs (fmul rnd (cov ! i ! i) (cov ! j ! j)))) \<and>
            corr ! j ! i = corr ! i ! j \<and>
            (fmul rnd (cov ! i ! i) (cov ! j ! j) = Fin 0 \<longrightarrow> \<not> is_finite (corr ! i ! j))))) \<and>
   (cov_reads_ok cov \<longrightarrow> (\<exists>corr. cov_to_correlation rnd cov = Inr corr)) \<and>
   (\<not> cov_reads_ok cov \<longrightarrow> cov_to_correlation rnd cov = Inl IndexError)"
proof (intro conjI impI)
  assume h: "rounding_ok rnd \<and> is_square n cov"
  then have rnd: "rounding_ok rnd" and sq: "is_square n cov" by simp_all
  from cov_to_correlation_values[OF rnd sq] obtain corr where
    res: "cov_to_correlation rnd cov = Inr corr" and csq: "is_square n corr" and
    c: "\<And>a b. a < n \<Longrightarrow> b < n \<Longrightarrow> corr ! a ! b =
        (if a < b then
           fdiv rnd (cov ! a ! b) (fpow_half rnd (fabs (fmul rnd (cov ! a ! a) (cov ! b ! b))))
         else if b < a then
           fdiv rnd (cov ! b ! a) (fpow_half rnd (fabs (fmul rnd (cov ! b ! b) (cov ! a ! a))))
         else Fin 1)" by blast
  have "\<not> is_finite (corr ! i ! j)"
    if "i < j" "j < n" "fmul rnd (cov ! i ! i) (cov ! j ! j) = Fin 0" for i j
    using that pow_half_zero[OF rnd, of "cov ! i ! j"] by (simp add: c)
  then show "\<exists>corr. cov_to_correlation rnd cov = Inr corr \<and> is_square n corr \<and>
         (\<forall>i<n. corr ! i ! i = Fin 1) \<and>
         (\<forall>j<n. \<forall>i<j.
            corr ! i ! j =
              fdiv rnd (cov ! i ! j) (fpow_half rnd (fabs (fmul rnd (cov ! i ! i) (cov ! j ! j)))) \<and>
            corr ! j ! i = corr ! i ! j \<and>
            (fmul rnd (cov ! i ! i) (cov ! j ! j) = Fin 0 \<longrightarrow> \<not> is_finite (corr ! i ! j)))"
    using res csq by (auto simp: c)
next
  assume "cov_reads_ok cov"
  then show "\<exists>corr. cov_to_correlation rnd cov = Inr corr"
    using cov_to_correlation_run[of cov rnd] by blast
next
  assume "\<not> cov_reads_ok cov"
  then show "cov_to_correlation rnd cov = Inl IndexError"
    by (rule cov_to_correlation_error)
qed

theorem cov_to_correlation_entries_witness:
  "rounding_ok round64 \<and> is_square 2 [[Fin 1, Fin 1], [Fin 1, Fin 4]] \<and>
   cov_reads_ok [[Fin 1, Fin 1], [Fin 1, Fin 4]] \<and>
   (\<exists>corr. cov_to_correlation round64 [[Fin 1, Fin 1], [Fin 1, Fin 4]] = Inr corr \<and>
      corr ! 0 ! 0 = Fin 1 \<and> corr ! 1 ! 1 = Fin 1 \<and> corr ! 0 ! 1 = Fin (1 / 2) \<and>
      corr ! 1 ! 0 = Fin (1 / 2)) \<and>
   is_square 2 [[Fin 0, Fin 1], [Fin 1, Fin 4]] \<and>
   fmul round64 ([[Fin 0, Fin 1], [Fin 1, Fin 4]] ! 0 ! 0) ([[Fin 0, Fin 1], [Fin 1, Fin 4]] ! 1 ! 1) =
     Fin 0 \<and>
   (\<exists>corr. cov_to_correlation round64 [[Fin 0, Fin 1], [Fin 1, Fin 4]] = Inr corr \<and>
      \<not> is_finite (corr ! 0 ! 1)) \<and>
   \<not> cov_reads_ok [[Fin 1], [Fin 2]] \<and>
   cov_to_correlation round64 [[Fin 1], [Fin 2]] = Inl IndexError"
proof -
  let ?c = "[[Fin 1, Fin 1], [Fin 1, Fin 4]]"
  let ?z = "[[Fin 0, Fin 1], [Fin 1, Fin 4]]"
  have sq: "is_square 2 ?c" "is_square 2 ?z" by (simp_all add: is_square_def)
  have ok: "cov_reads_ok ?c" by (simp add: cov_reads_ok_def upt_rec)
  have bad: "\<not> cov_reads_ok [[Fin 1], [Fin 2]]" by (simp add: cov_reads_ok_def upt_rec)
  have zero: "fmul round64 (?z ! 0 ! 0) (?z ! 1 ! 1) = Fin 0" by (simp add: round64_int)
  have s4: "sqrt 4 = 2" by (rule real_sqrt_unique) simp_all
  note t = cov_to_correlation_entries[of round64 2 ?c, THEN conjunct1, rule_format,
      OF conjI[OF rounding_ok_round64 sq(1)]]
  note tz = cov_to_correlation_entries[of round64 2 ?z, THEN conjunct1, rule_format,
      OF conjI[OF rounding_ok_round64 sq(2)]]
  note te = cov_to_correlation_entries[of round64 2 "[[Fin 1], [Fin 2]]", THEN conjunct2,
      THEN conjunct2, rule_format, OF bad]
  from t obtain corr where
    r: "cov_to_correlation round64 ?c = Inr corr" and
    d: "\<forall>i<2. corr ! i ! i = Fin 1" and
    u: "\<forall>j<2. \<forall>i<j.
            corr ! i ! j =
              fdiv round64 (?c ! i ! j) (fpow_half round64 (fabs (fmul round64 (?c ! i ! i) (?c ! j ! j)))) \<and>
            corr ! j ! i = corr ! i ! j \<and>
            (fmul round64 (?c ! i ! i) (?c ! j ! j) = Fin 0 \<longrightarrow> \<not> is_finite (corr ! i ! j))"
    by blast
  from d have c00: "corr ! 0 ! 0 = Fin 1" "corr ! 1 ! 1 = Fin 1" by simp_all
  from u[rule_format, of 1 0] have c01: "corr ! 0 ! 1 = Fin (1 / 2)" "corr ! 1 ! 0 = Fin (1 / 2)"
    by (simp_all add: round64_int round64_frac s4)
  from tz obtain corrz where
    rz: "cov_to_correlation round64 ?z = Inr corrz" and
    uz: "\<forall>j<2. \<forall>i<j.
            corrz ! i ! j =
              fdiv round64 (?z ! i ! j) (fpow_half round64 (fabs (fmul round64 (?z ! i ! i) (?z ! j ! j)))) \<and>
            corrz ! j ! i = corrz ! i ! j \<and>
            (fmul round64 (?z ! i ! i) (?z ! j ! j) = Fin 0 \<longrightarrow> \<not> is_finite (corrz ! i ! j))"
    by blast
  have "0 < (1::nat)" "(1::nat) < 2" by simp_all
  from uz[rule_format, OF this(2) this(1)] zero have nz: "\<not> is_finite (corrz ! 0 ! 1)" by blast
  have e1: "\<exists>corr. cov_to_correlation round64 ?c = Inr corr \<and>
      corr ! 0 ! 0 = Fin 1 \<and> corr ! 1 ! 1 = Fin 1 \<and> corr ! 0 ! 1 = Fin (1 / 2) \<and>
      corr ! 1 ! 0 = Fin (1 / 2)"
    using r c00 c01 by blast
  have e2: "\<exists>corr. cov_to_correlation round64 ?z = Inr corr \<and> \<not> is_finite (corr ! 0 ! 1)"
    using rz nz by blast
  show ?thesis
    by (intro conjI) (rule rounding_ok_round64 sq ok e1 zero e2 bad te)+
qed

text \<open>
  C10: both converters read their matrix argument only on and above the diagonal.
  Two \<open>corr\<close> arguments that agree (in value, or in being absent) at every \<open>[i, j]\<close> with
  \<open>i < j < len(std)\<close> give the same result of \<^verbatim>\<open>correlation_to_cov\<close>, whatever their
  diagonals and lower triangles; two \<open>cov\<close> arguments of one length that agree at every
  \<open>[i, j]\<close> with \<open>i \<le> j\<close> give the same result of \<^verbatim>\<open>cov_to_correlation\<close>. This holds for
  every rounding of the arithmetic.
\<close>

theorem converters_read_upper_triangle:
  "((\<forall>j<length std. \<forall>i<j. mat_get corr1 i j = mat_get corr2 i j) \<longrightarrow>
      correlation_to_cov rnd std corr1 = correlation_to_cov rnd std corr2) \<and>
   (length cov1 = length cov2 \<and> (\<forall>j<length cov1. \<forall>i\<le>j. mat_get cov1 i j = mat_get cov2 i j) \<longrightarrow>
      cov_to_correlation rnd cov1 = cov_to_correlation rnd cov2)"
proof (intro conjI impI)
  assume "\<forall>j<length std. \<forall>i<j. mat_get corr1 i j = mat_get corr2 i j"
  then show "correlation_to_cov rnd std corr1 = correlation_to_cov rnd std corr2"
    by (intro correlation_to_cov_cong) simp
next
  assume "length cov1 = length cov2 \<and> (\<forall>j<length cov1. \<forall>i\<le>j. mat_get cov1 i j = mat_get cov2 i j)"
  then show "cov_to_correlation rnd cov1 = cov_to_correlation rnd cov2"
    by (intro cov_to_correlation_cong) simp_all
qed

theorem converters_read_upper_triangle_witness:
  "mat_get [[Fin 1, Fin (1 / 2)], [Fin (1 / 2), Fin 1]] 0 1 =
     mat_get [[Fin 7, Fin (1 / 2)], [Fin 9, NaN]] 0 1 \<and>
   correlation_to_cov round64 [Fin 1, Fin 2] [[Fin 1, Fin (1 / 2)], [Fin (1 / 2), Fin 1]] =
     correlation_to_cov round64 [Fin 1, Fin 2] [[Fin 7, Fin (1 / 2)], [Fin 9, NaN]] \<and>
   length [[Fin 1, Fin 1], [Fin 1, Fin 4]] = length [[Fin 1, Fin 1], [Fin 100, Fin 4]] \<and>
   mat_get [[Fin 1, Fin 1], [Fin 1, Fin 4]] 0 0 = mat_get [[Fin 1, Fin 1], [Fin 100, Fin 4]] 0 0 \<and>
   mat_get [[Fin 1, Fin 1], [Fin 1, Fin 4]] 0 1 = mat_get [[Fin 1, Fin 1], [Fin 100, Fin 4]] 0 1 \<and>
   mat_get [[Fin 1, Fin 1], [Fin 1, Fin 4]] 1 1 = mat_get [[Fin 1, Fin 1], [Fin 100, Fin 4]] 1 1 \<and>
   cov_to_correlation round64 [[Fin 1, Fin 1], [Fin 1, Fin 4]] =
     cov_to_correlation round64 [[Fin 1, Fin 1], [Fin 100, Fin 4]]"
proof -
  have h1: "\<forall>j<length [Fin 1, Fin 2]. \<forall>i<j.
      mat_get [[Fin 1, Fin (1 / 2)], [Fin (1 / 2), Fin 1]] i j =
      mat_get [[Fin 7, Fin (1 / 2)], [Fin 9, NaN]] i j"
    by (simp add: mat_get_def less_Suc_eq numeral_2_eq_2)
  have h2: "length [[Fin 1, Fin 1], [Fin 1, Fin 4]] = length [[Fin 1, Fin 1], [Fin 100, Fin 4]] \<and>
    (\<forall>j<length [[Fin 1, Fin 1], [Fin 1, Fin 4]]. \<forall>i\<le>j.
       mat_get [[Fin 1, Fin 1], [Fin 1, Fin 4]] i j = mat_get [[Fin 1, Fin 1], [Fin 100, Fin 4]] i j)"
    by (simp add: mat_get_def less_Suc_eq le_Suc_eq numeral_2_eq_2)
  note t = converters_read_upper_triangle[of "[Fin 1, Fin 2]"
      "[[Fin 1, Fin (1 / 2)], [Fin (1 / 2), Fin 1]]" "[[Fin 7, Fin (1 / 2)], [Fin 9, NaN]]" round64
      "[[Fin 1, Fin 1], [Fin 1, Fin 4]]" "[[Fin 1, Fin 1], [Fin 100, Fin 4]]"]
  have a: "correlation_to_cov round64 [Fin 1, Fin 2] [[Fin 1, Fin (1 / 2)], [Fin (1 / 2), Fin 1]] =
     correlation_to_cov round64 [Fin 1, Fin 2] [[Fin 7, Fin (1 / 2)], [Fin 9, NaN]]"
    by (rule t[THEN conjunct1, THEN mp, OF h1])
  have b: "cov_to_correlation round64 [[Fin 1, Fin 1], [Fin 1, Fin 4]] =
     cov_to_correlation round64 [[Fin 1, Fin 1], [Fin 100, Fin 4]]"
    by (rule t[THEN conjunct2, THEN mp, OF h2])
  show ?thesis
    by (intro conjI a b) (simp_all add: mat_get_def)
qed




section \<open>Properties of the re-ranking loop\<close>

lemma is_shapeD: "is_shape M N m \<Longrightarrow> length m = M" "is_shape M N m \<Longrightarrow> i < M \<Longrightarrow> length (m ! i) = N"
  by (auto simp: is_shape_def list_all_length)

lemma is_shapeI: "length m = M \<Longrightarrow> (\<And>i. i < M \<Longrightarrow> length (m ! i) = N) \<Longrightarrow> is_shape M N m"
  by (auto simp: is_shape_def list_all_length)

lemma for_loop_append:
  "for_loop (xs @ ys) body s =
     (case for_loop xs body s of Inl e \<Rightarrow> Inl e | Inr s' \<Rightarrow> for_loop ys body s')"
  by (induction xs arbitrary: s) (auto split: sum.splits)

lemma mset_np_argsort: "mset (np_argsort v) = mset [0..<length v]"
  by (simp add: np_argsort_def)

lemma length_np_argsort: "length (np_argsort v) = length v"
  by (simp add: np_argsort_def)

lemma mset_np_sort: "mset (np_sort v) = mset v"
  by (simp add: np_sort_def)

lemma length_np_sort: "length (np_sort v) = length v"
  by (simp add: np_sort_def)

lemma length_ranks: "length (ranks r M) = length r"
proof -
  have "length (fold (\<lambda>t rank. rank[r ! t := t]) ts rk) = length rk" for ts and rk :: "nat list"
    by (induction ts arbitrary: rk) simp_all
  then show ?thesis by (simp add: ranks_def)
qed

lemma ranks_fold_nth:
  fixes r :: "nat list"
  assumes d: "distinct r" and len: "length rk0 = length r" and b: "\<forall>t<length r. r ! t < length r"
    and k: "k \<le> length r"
  shows "length (fold (\<lambda>t rank. rank[r ! t := t]) [0..<k] rk0) = length r \<and>
     (\<forall>t<k. fold (\<lambda>t rank. rank[r ! t := t]) [0..<k] rk0 ! (r ! t) = t)"
  using k
proof (induction k)
  case 0 with len show ?case by simp
next
  case (Suc k)
  let ?rk = "fold (\<lambda>t rank. rank[r ! t := t]) [0..<k] rk0"
  from Suc have l: "length ?rk = length r" and n: "\<And>t. t < k \<Longrightarrow> ?rk ! (r ! t) = t" and kl: "k < length r"
    by auto
  have step: "fold (\<lambda>t rank. rank[r ! t := t]) [0..<Suc k] rk0 = ?rk[r ! k := k]" by simp
  have "?rk[r ! k := k] ! (r ! t) = t" if "t < Suc k" for t
  proof (cases "t = k")
    case True
    with b kl l show ?thesis by simp
  next
    case False
    with that have tk: "t < k" by simp
    with kl d have "r ! t \<noteq> r ! k" by (simp add: nth_eq_iff_index_eq)
    with n[OF tk] show ?thesis by simp
  qed
  with l show ?case unfolding step by simp
qed

lemma mset_ranks:
  assumes "mset r = mset [0..<M]"
  shows "mset (ranks r M) = mset [0..<M]"
proof -
  from assms have len: "length r = M" by (metis size_mset length_upt diff_zero)
  from assms have d: "distinct r" by (metis distinct_upt mset_eq_imp_distinct_iff)
  from assms have s: "set r = {0..<M}" by (metis mset_eq_setD set_upt)
  then have b: "\<forall>t<length r. r ! t < length r" using len by (metis atLeastLessThan_iff nth_mem)
  let ?rk = "ranks r M"
  from ranks_fold_nth[OF d _ b order_refl, of "replicate (length r) 0"] len
  have l: "length ?rk = M" and n: "\<And>t. t < M \<Longrightarrow> ?rk ! (r ! t) = t"
    by (simp_all add: ranks_def)
  have "map ((!) ?rk) r = [0..<M]"
    by (rule nth_equalityI) (simp_all add: len n)
  then have "mset [0..<M] = image_mset ((!) ?rk) (mset r)" by (metis mset_map)
  also have "\<dots> = mset (map ((!) ?rk) [0..<M])" by (simp add: assms)
  also have "\<dots> = mset ?rk" using map_nth[of ?rk] l by simp
  finally show ?thesis by simp
qed

lemma length_column: "length (column m j) = length m"
  by (simp add: column_def)

lemma set_column_shape:
  assumes "is_shape M N z" "length v = M"
  shows "is_shape M N (set_column z j v)"
  using assms by (intro is_shapeI) (simp_all add: set_column_def is_shapeD)

lemma column_set_column:
  assumes "is_shape M N z" "length v = M" "j < N"
  shows "column (set_column z j v) j' = (if j' = j then v else column z j')"
  using assms by (intro nth_equalityI) (auto simp: column_def set_column_def is_shapeD)

lemma length_rank_matched_column:
  "length (rank_matched_column rnd mv sd samples dep M j) = length dep"
  by (simp add: rank_matched_column_def length_ranks length_np_argsort length_column)

lemma mset_rank_matched_column:
  assumes s: "length samples = M" and d: "length dep = M"
  shows "mset (rank_matched_column rnd mv sd samples dep M j) =
     image_mset (\<lambda>x. fadd rnd (fmul rnd x (sd ! j)) (mv ! j)) (mset (column samples j))"
proof -
  let ?rs = "np_sort (column samples j)"
  let ?rank = "ranks (np_argsort (column dep j)) M"
  let ?f = "\<lambda>x. fadd rnd (fmul rnd x (sd ! j)) (mv ! j)"
  have l: "length ?rs = M" using s by (simp add: length_column length_np_sort)
  have "mset (np_argsort (column dep j)) = mset [0..<M]"
    using d by (simp add: mset_np_argsort length_column)
  then have r: "mset ?rank = mset [0..<M]" by (rule mset_ranks)
  have "rank_matched_column rnd mv sd samples dep M j = map ?f (map ((!) ?rs) ?rank)"
    by (simp add: rank_matched_column_def)
  then have "mset (rank_matched_column rnd mv sd samples dep M j) =
        image_mset ?f (image_mset ((!) ?rs) (mset ?rank))"
    by (simp only: mset_map)
  also have "image_mset ((!) ?rs) (mset ?rank) = mset (map ((!) ?rs) [0..<M])"
    by (simp only: r mset_map)
  also have "map ((!) ?rs) [0..<M] = ?rs" using map_nth[of ?rs] l by simp
  finally show ?thesis by (simp add: mset_np_sort)
qed

lemma rerank_prefix:
  assumes z0: "is_shape M N z0" and d: "length dep = M" and k: "k \<le> N"
    and res: "rerank_columns rnd mv sd samples dep k M z0 = Inr z"
  shows "is_shape M N z \<and> k \<le> length sd \<and>
     (\<forall>j<N. column z j = (if j < k then rank_matched_column rnd mv sd samples dep M j else column z0 j))"
  using k res
proof (induction k arbitrary: z)
  case 0
  with z0 show ?case by (simp add: rerank_columns_def)
next
  case (Suc k)
  let ?body = "\<lambda>j z.
       let r = np_argsort (column dep j);
           rank = ranks r M;
           rs = np_sort (column samples j)
       in case vec_get sd j of
            Inl err \<Rightarrow> Inl err
          | Inr s \<Rightarrow> Inr (set_column z j (map (\<lambda>k. fadd rnd (fmul rnd (rs ! k) s) (mv ! j)) rank))"
  from Suc.prems(2) obtain zk where
    zk: "rerank_columns rnd mv sd samples dep k M z0 = Inr zk" and st: "?body k zk = Inr z"
    by (auto simp: rerank_columns_def for_loop_append split: sum.splits)
  from Suc.prems(1) have kN: "k < N" by simp
  from Suc.IH[OF _ zk] kN have shk: "is_shape M N zk" and ksd: "k \<le> length sd"
    and ck: "\<And>j. j < N \<Longrightarrow> column zk j =
      (if j < k then rank_matched_column rnd mv sd samples dep M j else column z0 j)"
    by auto
  from st have k': "k < length sd"
    and z: "z = set_column zk k (rank_matched_column rnd mv sd samples dep M k)"
    by (auto simp: vec_get_def rank_matched_column_def Let_def split: if_splits)
  have lv: "length (rank_matched_column rnd mv sd samples dep M k) = M"
    using d by (simp add: length_rank_matched_column)
  have "is_shape M N z" unfolding z by (rule set_column_shape[OF shk lv])
  moreover have "column z j =
      (if j < Suc k then rank_matched_column rnd mv sd samples dep M j else column z0 j)"
    if "j < N" for j
    unfolding z column_set_column[OF shk lv kN] using ck[OF that] by (auto simp: less_Suc_eq)
  ultimately show ?case using k' by simp
qed

lemma zeros_shape:
  assumes "is_shape M N samples"
  shows "is_shape M N (map (map (\<lambda>_. Fin 0)) samples)"
  using assms by (intro is_shapeI) (simp_all add: is_shapeD)

text \<open>The single pass, written out.\<close>

lemma lhs_single_pass:
  "lhs_normal_sample_corr rnd mv sd dc M samples dep =
     (case rerank_columns rnd mv sd samples dep (length mv) M (map (map (\<lambda>_. Fin 0)) samples) of
        Inl err \<Rightarrow> Inl err
      | Inr z \<Rightarrow>
          if flt (corr_error rnd z dc) (amin0 rnd) then Inr z else Inl CouldNotOrderSamples)"
  by (simp add: lhs_normal_sample_corr_def ntry_def attempt_def Let_def split: sum.splits)

lemma lhs_result:
  assumes res: "lhs_normal_sample_corr rnd mv sd dc M samples dep = Inr zb"
  shows "rerank_columns rnd mv sd samples dep (length mv) M (map (map (\<lambda>_. Fin 0)) samples) = Inr zb"
  using res unfolding lhs_single_pass by (auto split: sum.splits if_splits)

text \<open>The score is never negative: it is a number, the positive infinity or NaN.\<close>

lemma fadd_not_negative:
  assumes "not_negative a" "not_negative b"
  shows "not_negative (fadd round64 a b)"
  using assms by (cases a; cases b) (simp_all add: round64_nonneg)

lemma np_sum_not_negative:
  assumes "\<forall>v\<in>set vs. not_negative v"
  shows "not_negative (np_sum round64 vs)"
proof -
  have "not_negative (foldl (fadd round64) a vs)" if "not_negative a" for a
    using assms that by (induction vs arbitrary: a) (simp_all add: fadd_not_negative)
  then show ?thesis by (simp add: np_sum_def)
qed

lemma fabs_not_negative: "not_negative (fabs v)"
  by (cases v) simp_all

lemma corr_error_not_negative: "not_negative (corr_error round64 z dc)"
  unfolding corr_error_def
  by (rule np_sum_not_negative) (auto simp: fabs_not_negative dest!: set_zip_leftD
      elim!: in_set_zipE)

lemma flt_PInf: "not_negative v \<Longrightarrow> flt v PInf = is_finite v"
  by (cases v) simp_all





text \<open>Two runs in float64 arithmetic: three samples of two variables, and seventeen.\<close>

lemma small_rerank:
  "rerank_columns round64 [Fin 0, Fin 0] [Fin 1, Fin 1]
     [[Fin (- 1), Fin 0], [Fin 0, Fin 1], [Fin 1, Fin (- 1)]]
     [[Fin (- 1), Fin 0], [Fin 0, Fin 1], [Fin 1, Fin (- 1)]]
     2 3 (map (map (\<lambda>_. Fin 0)) [[Fin (- 1), Fin 0], [Fin 0, Fin 1], [Fin 1, Fin (- 1)]]) =
   Inr [[Fin (- 1), Fin 0], [Fin 0, Fin 1], [Fin 1, Fin (- 1)]]"
  by (simp add: rerank_columns_def np_argsort_def np_sort_def ranks_def column_def set_column_def
      vec_get_def sort_order_def upt_rec round64_int)

lemma small_cov:
  "np_cov round64 [[Fin (- 1), Fin 0, Fin 1], [Fin 0, Fin 1, Fin (- 1)]] =
     [[Fin 1, Fin (- (1 / 2))], [Fin (- (1 / 2)), Fin 1]]"
  by (simp add: np_cov_def np_mean_def np_sum_def cols_def
      float_of_nat_def fsub_def round64_int round64_frac)

lemma small_T:
  "mat_T [[Fin (- 1), Fin 0], [Fin 0, Fin 1], [Fin 1, Fin (- 1)]] =
     [[Fin (- 1), Fin 0, Fin 1], [Fin 0, Fin 1, Fin (- 1)]]"
  by (simp add: mat_T_def cols_def upt_rec)

lemma small_corrcoef:
  "np_corrcoef round64 (mat_T [[Fin (- 1), Fin 0], [Fin 0, Fin 1], [Fin 1, Fin (- 1)]]) =
     [[Fin 1, Fin (- (1 / 2))], [Fin (- (1 / 2)), Fin 1]]"
  unfolding np_corrcoef_def small_T small_cov Let_def
  by (simp add: diag_of_def np_clip_def upt_rec round64_int round64_frac)

lemma small_score:
  "corr_error round64 [[Fin (- 1), Fin 0], [Fin 0, Fin 1], [Fin 1, Fin (- 1)]]
     [[Fin 1, Fin 0], [Fin 0, Fin 1]] = Fin 1"
  unfolding corr_error_def small_corrcoef
  by (simp add: np_sum_def fsub_def round64_int round64_frac)

text \<open>A constant column has variance zero: the score is NaN.\<close>

lemma flat_rerank:
  "rerank_columns round64 [Fin 0, Fin 0] [Fin 1, Fin 1]
     [[Fin 0, Fin 0], [Fin 0, Fin 1], [Fin 0, Fin (- 1)]]
     [[Fin (- 1), Fin 0], [Fin 0, Fin 1], [Fin 1, Fin (- 1)]]
     2 3 (map (map (\<lambda>_. Fin 0)) [[Fin 0, Fin 0], [Fin 0, Fin 1], [Fin 0, Fin (- 1)]]) =
   Inr [[Fin 0, Fin 0], [Fin 0, Fin 1], [Fin 0, Fin (- 1)]]"
  by (simp add: rerank_columns_def np_argsort_def np_sort_def ranks_def column_def set_column_def
      vec_get_def sort_order_def upt_rec round64_int)

lemma flat_cov:
  "np_cov round64 [[Fin 0, Fin 0, Fin 0], [Fin 0, Fin 1, Fin (- 1)]] =
     [[Fin 0, Fin 0], [Fin 0, Fin 1]]"
  by (simp add: np_cov_def np_mean_def np_sum_def cols_def
      float_of_nat_def fsub_def round64_int round64_frac)

lemma flat_T:
  "mat_T [[Fin 0, Fin 0], [Fin 0, Fin 1], [Fin 0, Fin (- 1)]] =
     [[Fin 0, Fin 0, Fin 0], [Fin 0, Fin 1, Fin (- 1)]]"
  by (simp add: mat_T_def cols_def upt_rec)

lemma flat_score:
  "corr_error round64 [[Fin 0, Fin 0], [Fin 0, Fin 1], [Fin 0, Fin (- 1)]]
     [[Fin 1, Fin 0], [Fin 0, Fin 1]] = NaN"
  unfolding corr_error_def np_corrcoef_def flat_T flat_cov Let_def
  by (simp add: np_sum_def fsub_def diag_of_def np_clip_def upt_rec round64_int)

lemma wit_rerank:
  "rerank_columns round64 [Fin 20, Fin 20] [Fin 1, Fin 2]
     [[Fin 3, Fin (- 15)], [Fin 10, Fin (- 2)], [Fin (- 10), Fin (- 4)],
      [Fin (- 6), Fin (- 6)], [Fin 4, Fin 6], [Fin (- 1), Fin (- 3)], [Fin (- 3), Fin 0],
      [Fin 0, Fin (- 11)], [Fin (- 4), Fin 10], [Fin (- 2), Fin (- 10)], [Fin 11, Fin 15],
      [Fin 1, Fin 4], [Fin 6, Fin (- 1)], [Fin 2, Fin 11], [Fin 15, Fin 1],
      [Fin (- 11), Fin 3], [Fin (- 15), Fin 2]]
     [[Fin (- 9), Fin (- 42)], [Fin 18, Fin 4], [Fin (- 24), Fin (- 22)],
      [Fin (- 18), Fin (- 24)], [Fin 14, Fin 22], [Fin (- 5), Fin (- 10)],
      [Fin (- 6), Fin (- 3)], [Fin (- 11), Fin (- 33)], [Fin 2, Fin 26],
      [Fin (- 14), Fin (- 32)], [Fin 37, Fin 56], [Fin 6, Fin 13], [Fin 11, Fin 3],
      [Fin 15, Fin 35], [Fin 31, Fin 18], [Fin (- 19), Fin (- 2)], [Fin (- 28), Fin (- 9)]]
     2 17
     (map (map (\<lambda>_. Fin 0))
     [[Fin 3, Fin (- 15)], [Fin 10, Fin (- 2)], [Fin (- 10), Fin (- 4)],
      [Fin (- 6), Fin (- 6)], [Fin 4, Fin 6], [Fin (- 1), Fin (- 3)], [Fin (- 3), Fin 0],
      [Fin 0, Fin (- 11)], [Fin (- 4), Fin 10], [Fin (- 2), Fin (- 10)], [Fin 11, Fin 15],
      [Fin 1, Fin 4], [Fin 6, Fin (- 1)], [Fin 2, Fin 11], [Fin 15, Fin 1],
      [Fin (- 11), Fin 3], [Fin (- 15), Fin 2]]) =
   Inr
     [[Fin 18, Fin (- 10)], [Fin 30, Fin 24], [Fin 9, Fin 12], [Fin 14, Fin 8],
      [Fin 24, Fin 32], [Fin 20, Fin 14], [Fin 19, Fin 18], [Fin 17, Fin (- 2)],
      [Fin 21, Fin 40], [Fin 16, Fin 0], [Fin 35, Fin 50], [Fin 22, Fin 26],
      [Fin 23, Fin 22], [Fin 26, Fin 42], [Fin 31, Fin 28], [Fin 10, Fin 20],
      [Fin 5, Fin 16]]"
  by (simp add: rerank_columns_def np_argsort_def np_sort_def ranks_def column_def set_column_def
      vec_get_def sort_order_def upt_rec round64_int)

lemma wit_T:
  "mat_T
     [[Fin 18, Fin (- 10)], [Fin 30, Fin 24], [Fin 9, Fin 12], [Fin 14, Fin 8],
      [Fin 24, Fin 32], [Fin 20, Fin 14], [Fin 19, Fin 18], [Fin 17, Fin (- 2)],
      [Fin 21, Fin 40], [Fin 16, Fin 0], [Fin 35, Fin 50], [Fin 22, Fin 26],
      [Fin 23, Fin 22], [Fin 26, Fin 42], [Fin 31, Fin 28], [Fin 10, Fin 20],
      [Fin 5, Fin 16]] =
   [[Fin 18, Fin 30, Fin 9, Fin 14, Fin 24, Fin 20, Fin 19, Fin 17, Fin 21, Fin 16, Fin 35,
      Fin 22, Fin 23, Fin 26, Fin 31, Fin 10, Fin 5],
    [Fin (- 10), Fin 24, Fin 12, Fin 8, Fin 32, Fin 14, Fin 18, Fin (- 2), Fin 40, Fin 0,
      Fin 50, Fin 26, Fin 22, Fin 42, Fin 28, Fin 20, Fin 16]]"
  by (simp add: mat_T_def cols_def upt_rec)

lemma wit_mean:
  "np_mean round64
     [Fin 18, Fin 30, Fin 9, Fin 14, Fin 24, Fin 20, Fin 19, Fin 17, Fin 21, Fin 16, Fin 35,
      Fin 22, Fin 23, Fin 26, Fin 31, Fin 10, Fin 5] = Fin 20"
  "np_mean round64
     [Fin (- 10), Fin 24, Fin 12, Fin 8, Fin 32, Fin 14, Fin 18, Fin (- 2), Fin 40, Fin 0,
      Fin 50, Fin 26, Fin 22, Fin 42, Fin 28, Fin 20, Fin 16] = Fin 20"
  by (simp_all add: np_mean_def np_sum_def float_of_nat_def round64_int)

lemma wit_cov:
  "np_cov round64
   [[Fin 18, Fin 30, Fin 9, Fin 14, Fin 24, Fin 20, Fin 19, Fin 17, Fin 21, Fin 16, Fin 35,
      Fin 22, Fin 23, Fin 26, Fin 31, Fin 10, Fin 5],
    [Fin (- 10), Fin 24, Fin 12, Fin 8, Fin 32, Fin 14, Fin 18, Fin (- 2), Fin 40, Fin 0,
      Fin 50, Fin 26, Fin 22, Fin 42, Fin 28, Fin 20, Fin 16]] = [[Fin 64, Fin (153 / 2)], [Fin (153 / 2), Fin 256]]"
  unfolding np_cov_def Let_def list.map wit_mean
  by (simp add: np_sum_def cols_def float_of_nat_def fsub_def round64_int round64_frac)

lemma wit_corrcoef:
  "np_corrcoef round64 (mat_T
     [[Fin 18, Fin (- 10)], [Fin 30, Fin 24], [Fin 9, Fin 12], [Fin 14, Fin 8],
      [Fin 24, Fin 32], [Fin 20, Fin 14], [Fin 19, Fin 18], [Fin 17, Fin (- 2)],
      [Fin 21, Fin 40], [Fin 16, Fin 0], [Fin 35, Fin 50], [Fin 22, Fin 26],
      [Fin 23, Fin 22], [Fin 26, Fin 42], [Fin 31, Fin 28], [Fin 10, Fin 20],
      [Fin 5, Fin 16]]) =
   [[Fin 1, Fin (153 / 256)], [Fin (153 / 256), Fin 1]]"
proof -
  have s: "sqrt 64 = 8" "sqrt 256 = 16" by (rule real_sqrt_unique; simp)+
  show ?thesis
    unfolding np_corrcoef_def wit_T wit_cov Let_def
    by (simp add: diag_of_def np_clip_def upt_rec round64_int round64_frac s)
qed

lemma wit_score:
  "corr_error round64
     [[Fin 18, Fin (- 10)], [Fin 30, Fin 24], [Fin 9, Fin 12], [Fin 14, Fin 8],
      [Fin 24, Fin 32], [Fin 20, Fin 14], [Fin 19, Fin 18], [Fin 17, Fin (- 2)],
      [Fin 21, Fin 40], [Fin 16, Fin 0], [Fin 35, Fin 50], [Fin 22, Fin 26],
      [Fin 23, Fin 22], [Fin 26, Fin 42], [Fin 31, Fin 28], [Fin 10, Fin 20],
      [Fin 5, Fin 16]]
     [[Fin 1, Fin (1 / 2)], [Fin (1 / 2), Fin 1]] = Fin (25 / 128)"
  unfolding corr_error_def wit_corrcoef
  by (simp add: np_sum_def fsub_def round64_int round64_frac)


subsection \<open>Claims about the stratified composition\<close>

text \<open>
  C3: whenever \<^verbatim>\<open>lhs_normal_sample_corr\<close> returns, every column \<open>j\<close> of the result holds, as a
  multiset, the values of column \<open>j\<close> of the stratified \<^verbatim>\<open>samples\<close>, each multiplied by
  \<open>std_dev[j]\<close> and shifted by \<open>mean_values[j]\<close> (in the arithmetic of the run): the re-ranking
  changes the order only. This holds for every number of variables and of samples and for
  every rounding; the witness has 2 variables and 17 samples, and its call returns in float64
  arithmetic.
\<close>

theorem rerank_preserves_marginals:
  assumes s: "is_shape num_samples (length mean_values) samples"
    and d: "is_shape num_samples (length mean_values) dependent_samples"
    and res: "lhs_normal_sample_corr rnd mean_values std_dev desired_corr num_samples samples
                dependent_samples = Inr zb"
  shows "is_shape num_samples (length mean_values) zb \<and>
     (\<forall>j<length mean_values. mset (column zb j) =
        image_mset (\<lambda>x. fadd rnd (fmul rnd x (std_dev ! j)) (mean_values ! j))
          (mset (column samples j)))"
proof -
  note r = lhs_result[OF res]
  from rerank_prefix[OF zeros_shape[OF s] is_shapeD(1)[OF d] order_refl r]
  have sh: "is_shape num_samples (length mean_values) zb"
    and c: "\<And>j. j < length mean_values \<Longrightarrow> column zb j =
      rank_matched_column rnd mean_values std_dev samples dependent_samples num_samples j"
    by auto
  show ?thesis
    using sh c mset_rank_matched_column[OF is_shapeD(1)[OF s] is_shapeD(1)[OF d]] by simp
qed

theorem rerank_preserves_marginals_witness:
  "is_shape 17 (length [Fin 20, Fin 20])
     [[Fin 3, Fin (- 15)], [Fin 10, Fin (- 2)], [Fin (- 10), Fin (- 4)],
      [Fin (- 6), Fin (- 6)], [Fin 4, Fin 6], [Fin (- 1), Fin (- 3)], [Fin (- 3), Fin 0],
      [Fin 0, Fin (- 11)], [Fin (- 4), Fin 10], [Fin (- 2), Fin (- 10)], [Fin 11, Fin 15],
      [Fin 1, Fin 4], [Fin 6, Fin (- 1)], [Fin 2, Fin 11], [Fin 15, Fin 1],
      [Fin (- 11), Fin 3], [Fin (- 15), Fin 2]] \<and>
   is_shape 17 (length [Fin 20, Fin 20])
     [[Fin (- 9), Fin (- 42)], [Fin 18, Fin 4], [Fin (- 24), Fin (- 22)],
      [Fin (- 18), Fin (- 24)], [Fin 14, Fin 22], [Fin (- 5), Fin (- 10)],
      [Fin (- 6), Fin (- 3)], [Fin (- 11), Fin (- 33)], [Fin 2, Fin 26],
      [Fin (- 14), Fin (- 32)], [Fin 37, Fin 56], [Fin 6, Fin 13], [Fin 11, Fin 3],
      [Fin 15, Fin 35], [Fin 31, Fin 18], [Fin (- 19), Fin (- 2)], [Fin (- 28), Fin (- 9)]] \<and>
   lhs_normal_sample_corr round64 [Fin 20, Fin 20] [Fin 1, Fin 2]
     [[Fin 1, Fin (1 / 2)], [Fin (1 / 2), Fin 1]] 17
     [[Fin 3, Fin (- 15)], [Fin 10, Fin (- 2)], [Fin (- 10), Fin (- 4)],
      [Fin (- 6), Fin (- 6)], [Fin 4, Fin 6], [Fin (- 1), Fin (- 3)], [Fin (- 3), Fin 0],
      [Fin 0, Fin (- 11)], [Fin (- 4), Fin 10], [Fin (- 2), Fin (- 10)], [Fin 11, Fin 15],
      [Fin 1, Fin 4], [Fin 6, Fin (- 1)], [Fin 2, Fin 11], [Fin 15, Fin 1],
      [Fin (- 11), Fin 3], [Fin (- 15), Fin 2]]
     [[Fin (- 9), Fin (- 42)], [Fin 18, Fin 4], [Fin (- 24), Fin (- 22)],
      [Fin (- 18), Fin (- 24)], [Fin 14, Fin 22], [Fin (- 5), Fin (- 10)],
      [Fin (- 6), Fin (- 3)], [Fin (- 11), Fin (- 33)], [Fin 2, Fin 26],
      [Fin (- 14), Fin (- 32)], [Fin 37, Fin 56], [Fin 6, Fin 13], [Fin 11, Fin 3],
      [Fin 15, Fin 35], [Fin 31, Fin 18], [Fin (- 19), Fin (- 2)], [Fin (- 28), Fin (- 9)]] =
   Inr
     [[Fin 18, Fin (- 10)], [Fin 30, Fin 24], [Fin 9, Fin 12], [Fin 14, Fin 8],
      [Fin 24, Fin 32], [Fin 20, Fin 14], [Fin 19, Fin 18], [Fin 17, Fin (- 2)],
      [Fin 21, Fin 40], [Fin 16, Fin 0], [Fin 35, Fin 50], [Fin 22, Fin 26],
      [Fin 23, Fin 22], [Fin 26, Fin 42], [Fin 31, Fin 28], [Fin 10, Fin 20],
      [Fin 5, Fin 16]] \<and>
   mset (column
     [[Fin 18, Fin (- 10)], [Fin 30, Fin 24], [Fin 9, Fin 12], [Fin 14, Fin 8],
      [Fin 24, Fin 32], [Fin 20, Fin 14], [Fin 19, Fin 18], [Fin 17, Fin (- 2)],
      [Fin 21, Fin 40], [Fin 16, Fin 0], [Fin 35, Fin 50], [Fin 22, Fin 26],
      [Fin 23, Fin 22], [Fin 26, Fin 42], [Fin 31, Fin 28], [Fin 10, Fin 20],
      [Fin 5, Fin 16]] 1) =
   image_mset (\<lambda>x. fadd round64 (fmul round64 x ([Fin 1, Fin 2] ! 1)) ([Fin 20, Fin 20] ! 1))
     (mset (column
     [[Fin 3, Fin (- 15)], [Fin 10, Fin (- 2)], [Fin (- 10), Fin (- 4)],
      [Fin (- 6), Fin (- 6)], [Fin 4, Fin 6], [Fin (- 1), Fin (- 3)], [Fin (- 3), Fin 0],
      [Fin 0, Fin (- 11)], [Fin (- 4), Fin 10], [Fin (- 2), Fin (- 10)], [Fin 11, Fin 15],
      [Fin 1, Fin 4], [Fin 6, Fin (- 1)], [Fin 2, Fin 11], [Fin 15, Fin 1],
      [Fin (- 11), Fin 3], [Fin (- 15), Fin 2]] 1))"
proof -
  let ?S = "[[Fin 3, Fin (- 15)], [Fin 10, Fin (- 2)], [Fin (- 10), Fin (- 4)],
      [Fin (- 6), Fin (- 6)], [Fin 4, Fin 6], [Fin (- 1), Fin (- 3)], [Fin (- 3), Fin 0],
      [Fin 0, Fin (- 11)], [Fin (- 4), Fin 10], [Fin (- 2), Fin (- 10)], [Fin 11, Fin 15],
      [Fin 1, Fin 4], [Fin 6, Fin (- 1)], [Fin 2, Fin 11], [Fin 15, Fin 1],
      [Fin (- 11), Fin 3], [Fin (- 15), Fin 2]]"
  let ?D = "[[Fin (- 9), Fin (- 42)], [Fin 18, Fin 4], [Fin (- 24), Fin (- 22)],
      [Fin (- 18), Fin (- 24)], [Fin 14, Fin 22], [Fin (- 5), Fin (- 10)],
      [Fin (- 6), Fin (- 3)], [Fin (- 11), Fin (- 33)], [Fin 2, Fin 26],
      [Fin (- 14), Fin (- 32)], [Fin 37, Fin 56], [Fin 6, Fin 13], [Fin 11, Fin 3],
      [Fin 15, Fin 35], [Fin 31, Fin 18], [Fin (- 19), Fin (- 2)], [Fin (- 28), Fin (- 9)]]"
  let ?Z = "[[Fin 18, Fin (- 10)], [Fin 30, Fin 24], [Fin 9, Fin 12], [Fin 14, Fin 8],
      [Fin 24, Fin 32], [Fin 20, Fin 14], [Fin 19, Fin 18], [Fin 17, Fin (- 2)],
      [Fin 21, Fin 40], [Fin 16, Fin 0], [Fin 35, Fin 50], [Fin 22, Fin 26],
      [Fin 23, Fin 22], [Fin 26, Fin 42], [Fin 31, Fin 28], [Fin 10, Fin 20],
      [Fin 5, Fin 16]]"
  have s: "is_shape 17 (length [Fin 20, Fin 20]) ?S" by (simp add: is_shape_def)
  have d: "is_shape 17 (length [Fin 20, Fin 20]) ?D" by (simp add: is_shape_def)
  have l: "length [Fin 20, Fin 20] = 2" by simp
  have res: "lhs_normal_sample_corr round64 [Fin 20, Fin 20] [Fin 1, Fin 2]
     [[Fin 1, Fin (1 / 2)], [Fin (1 / 2), Fin 1]] 17 ?S ?D = Inr ?Z"
    unfolding lhs_single_pass l wit_rerank sum.case wit_score amin0_round64 by simp
  from rerank_preserves_marginals[OF s d res] have
    "mset (column ?Z 1) =
     image_mset (\<lambda>x. fadd round64 (fmul round64 x ([Fin 1, Fin 2] ! 1)) ([Fin 20, Fin 20] ! 1))
       (mset (column ?S 1))"
    by simp
  with s d res show ?thesis by (intro conjI)
qed

text \<open>
  C5 as stated: the \<^verbatim>\<open>else: raise\<close> fires on the very first comparison, against the
  sentinel \<open>1.8e308\<close>. It does not: with three samples of two variables and the identity as
  target the score is 1, the first comparison succeeds and the call returns the re-ranked
  samples.
\<close>

theorem first_comparison_counterexample:
  "corr_error round64 [[Fin (- 1), Fin 0], [Fin 0, Fin 1], [Fin 1, Fin (- 1)]]
     [[Fin 1, Fin 0], [Fin 0, Fin 1]] = Fin 1 \<and>
   lhs_normal_sample_corr round64 [Fin 0, Fin 0] [Fin 1, Fin 1] [[Fin 1, Fin 0], [Fin 0, Fin 1]] 3
     [[Fin (- 1), Fin 0], [Fin 0, Fin 1], [Fin 1, Fin (- 1)]]
     [[Fin (- 1), Fin 0], [Fin 0, Fin 1], [Fin 1, Fin (- 1)]] =
   Inr [[Fin (- 1), Fin 0], [Fin 0, Fin 1], [Fin 1, Fin (- 1)]]"
proof -
  have l: "length [Fin 0, Fin 0] = 2" by simp
  have "lhs_normal_sample_corr round64 [Fin 0, Fin 0] [Fin 1, Fin 1] [[Fin 1, Fin 0], [Fin 0, Fin 1]] 3
     [[Fin (- 1), Fin 0], [Fin 0, Fin 1], [Fin 1, Fin (- 1)]]
     [[Fin (- 1), Fin 0], [Fin 0, Fin 1], [Fin 1, Fin (- 1)]] =
   Inr [[Fin (- 1), Fin 0], [Fin 0, Fin 1], [Fin 1, Fin (- 1)]]"
    unfolding lhs_single_pass l small_rerank sum.case small_score amin0_round64 by simp
  with small_score show ?thesis by (intro conjI)
qed

text \<open>
  C5 as amended: a single pass is taken (\<open>ntry = 1\<close>), so the call is one re-ranking and one
  comparison of its score with the sentinel. The literal \<open>1.8e308\<close> is above the largest
  float64 and evaluates to the positive infinity, and the score is never negative: the call
  returns the re-ranked matrix when the score is a finite number and raises when the score is
  NaN or infinite. In any pass, a score that is not strictly below the best score so far
  raises the exception instead of keeping the earlier result.
\<close>

theorem retry_loop_single_pass:
  "ntry = 1 \<and> amin0 round64 = PInf \<and>
   lhs_normal_sample_corr round64 mv sd dc M samples dep =
     (case rerank_columns round64 mv sd samples dep (length mv) M (map (map (\<lambda>_. Fin 0)) samples) of
        Inl err \<Rightarrow> Inl err
      | Inr z \<Rightarrow>
          if is_finite (corr_error round64 z dc) then Inr z else Inl CouldNotOrderSamples) \<and>
   not_negative (corr_error round64 z dc) \<and>
   (rerank_columns rnd mv sd samples dep n M z0 = Inr z \<longrightarrow>
      attempt rnd mv sd dc samples dep n M il (amin, zb, z0) =
        (if flt (corr_error rnd z dc) amin then Inr (corr_error rnd z dc, Some z, z)
         else Inl CouldNotOrderSamples))"
proof (intro conjI impI)
  show "ntry = 1" by (simp add: ntry_def)
  show "amin0 round64 = PInf" by (rule amin0_round64)
  show "lhs_normal_sample_corr round64 mv sd dc M samples dep =
     (case rerank_columns round64 mv sd samples dep (length mv) M (map (map (\<lambda>_. Fin 0)) samples) of
        Inl err \<Rightarrow> Inl err
      | Inr z \<Rightarrow>
          if is_finite (corr_error round64 z dc) then Inr z else Inl CouldNotOrderSamples)"
    unfolding lhs_single_pass amin0_round64
    by (simp add: flt_PInf[OF corr_error_not_negative] split: sum.splits)
  show "not_negative (corr_error round64 z dc)" by (rule corr_error_not_negative)
  show "attempt rnd mv sd dc samples dep n M il (amin, zb, z0) =
        (if flt (corr_error rnd z dc) amin then Inr (corr_error rnd z dc, Some z, z)
         else Inl CouldNotOrderSamples)"
    if "rerank_columns rnd mv sd samples dep n M z0 = Inr z"
    using that by (simp add: attempt_def Let_def)
qed

theorem retry_loop_single_pass_witness:
  "rerank_columns round64 [Fin 0, Fin 0] [Fin 1, Fin 1]
     [[Fin (- 1), Fin 0], [Fin 0, Fin 1], [Fin 1, Fin (- 1)]]
     [[Fin (- 1), Fin 0], [Fin 0, Fin 1], [Fin 1, Fin (- 1)]]
     2 3 (map (map (\<lambda>_. Fin 0)) [[Fin (- 1), Fin 0], [Fin 0, Fin 1], [Fin 1, Fin (- 1)]]) =
     Inr [[Fin (- 1), Fin 0], [Fin 0, Fin 1], [Fin 1, Fin (- 1)]] \<and>
   attempt round64 [Fin 0, Fin 0] [Fin 1, Fin 1] [[Fin 1, Fin 0], [Fin 0, Fin 1]]
     [[Fin (- 1), Fin 0], [Fin 0, Fin 1], [Fin 1, Fin (- 1)]]
     [[Fin (- 1), Fin 0], [Fin 0, Fin 1], [Fin 1, Fin (- 1)]] 2 3 0
     (PInf, None, map (map (\<lambda>_. Fin 0)) [[Fin (- 1), Fin 0], [Fin 0, Fin 1], [Fin 1, Fin (- 1)]]) =
     Inr (Fin 1, Some [[Fin (- 1), Fin 0], [Fin 0, Fin 1], [Fin 1, Fin (- 1)]],
          [[Fin (- 1), Fin 0], [Fin 0, Fin 1], [Fin 1, Fin (- 1)]]) \<and>
   attempt round64 [Fin 0, Fin 0] [Fin 1, Fin 1] [[Fin 1, Fin 0], [Fin 0, Fin 1]]
     [[Fin (- 1), Fin 0], [Fin 0, Fin 1], [Fin 1, Fin (- 1)]]
     [[Fin (- 1), Fin 0], [Fin 0, Fin 1], [Fin 1, Fin (- 1)]] 2 3 1
     (Fin 1, Some [[Fin (- 1), Fin 0], [Fin 0, Fin 1], [Fin 1, Fin (- 1)]],
      map (map (\<lambda>_. Fin 0)) [[Fin (- 1), Fin 0], [Fin 0, Fin 1], [Fin 1, Fin (- 1)]]) =
     Inl CouldNotOrderSamples \<and>
   corr_error round64 [[Fin 0, Fin 0], [Fin 0, Fin 1], [Fin 0, Fin (- 1)]]
     [[Fin 1, Fin 0], [Fin 0, Fin 1]] = NaN \<and>
   lhs_normal_sample_corr round64 [Fin 0, Fin 0] [Fin 1, Fin 1] [[Fin 1, Fin 0], [Fin 0, Fin 1]] 3
     [[Fin 0, Fin 0], [Fin 0, Fin 1], [Fin 0, Fin (- 1)]]
     [[Fin (- 1), Fin 0], [Fin 0, Fin 1], [Fin 1, Fin (- 1)]] = Inl CouldNotOrderSamples"
proof -
  let ?S = "[[Fin (- 1), Fin 0], [Fin 0, Fin 1], [Fin 1, Fin (- 1)]]"
  let ?F = "[[Fin 0, Fin 0], [Fin 0, Fin 1], [Fin 0, Fin (- 1)]]"
  let ?I = "[[Fin 1, Fin 0], [Fin 0, Fin 1]]"
  let ?z0 = "map (map (\<lambda>_. Fin 0)) ?S"
  note t = retry_loop_single_pass[of "[Fin 0, Fin 0]" "[Fin 1, Fin 1]" ?I 3 ?S ?S ?S round64 2
      ?z0 0 PInf None]
  note t' = retry_loop_single_pass[of "[Fin 0, Fin 0]" "[Fin 1, Fin 1]" ?I 3 ?S ?S ?S round64 2
      ?z0 1 "Fin 1" "Some ?S"]
  note tf = retry_loop_single_pass[of "[Fin 0, Fin 0]" "[Fin 1, Fin 1]" ?I 3 ?F ?S ?S round64 2
      ?z0 0 PInf None]
  have a1: "attempt round64 [Fin 0, Fin 0] [Fin 1, Fin 1] ?I ?S ?S 2 3 0 (PInf, None, ?z0) =
      Inr (Fin 1, Some ?S, ?S)"
    using t[THEN conjunct2, THEN conjunct2, THEN conjunct2, THEN conjunct2, THEN mp,
        OF small_rerank]
    by (simp add: small_score)
  have a2: "attempt round64 [Fin 0, Fin 0] [Fin 1, Fin 1] ?I ?S ?S 2 3 1 (Fin 1, Some ?S, ?z0) =
      Inl CouldNotOrderSamples"
    using t'[THEN conjunct2, THEN conjunct2, THEN conjunct2, THEN conjunct2, THEN mp,
        OF small_rerank]
    by (simp add: small_score)
  have l: "length [Fin 0, Fin 0] = 2" by simp
  have a3: "lhs_normal_sample_corr round64 [Fin 0, Fin 0] [Fin 1, Fin 1] ?I 3 ?F ?S =
      Inl CouldNotOrderSamples"
    using tf[THEN conjunct2, THEN conjunct2, THEN conjunct1]
    unfolding l flat_rerank sum.case flat_score by simp
  show ?thesis
    by (intro conjI) (rule small_rerank a1 a2 flat_score a3)+
qed

subsection \<open>Shapes that do not agree\<close>







end
